theory Spec2Isabelle
  imports Main "HOL-Library.AList"
begin

section \<open>Values, exceptions and the world of one request\<close>

text \<open>
  JavaScript values as far as the framework inspects them. \<open>ReqObject\<close> and
  \<open>ResObject\<close> stand for the request and response objects handed through as handler
  arguments (\<open>@Req()\<close>, \<open>@Res()\<close>).
\<close>

datatype jsval =
    Undefined
  | Null
  | JBool bool
  | JNum int
  | JStr string
  | JArr "jsval list"
  | JObj "(string \<times> jsval) list"
  | ReqObject
  | ResObject

text \<open>JavaScript truthiness, as used by \<open>a || b\<close> and \<open>if (!x)\<close>.\<close>

fun truthy :: "jsval \<Rightarrow> bool" where
  "truthy Undefined = False"
| "truthy Null = False"
| "truthy (JBool b) = b"
| "truthy (JNum n) = (n \<noteq> 0)"
| "truthy (JStr s) = (s \<noteq> [])"
| "truthy (JArr _) = True"
| "truthy (JObj _) = True"
| "truthy ReqObject = True"
| "truthy ResObject = True"

text \<open>
  Property store of an object literal: insertion ordered; writing an existing key keeps
  its position (what \<open>{statusCode: s, ...obj}\<close> does for a repeated key).
\<close>

fun obj_set :: "(string \<times> jsval) list \<Rightarrow> string \<Rightarrow> jsval \<Rightarrow> (string \<times> jsval) list" where
  "obj_set [] k v = [(k, v)]"
| "obj_set ((k', v') # ps) k v = (if k' = k then (k, v) # ps else (k', v') # obj_set ps k v)"

fun obj_spread :: "(string \<times> jsval) list \<Rightarrow> (string \<times> jsval) list \<Rightarrow> (string \<times> jsval) list" where
  "obj_spread acc [] = acc"
| "obj_spread acc ((k, v) # ps) = obj_spread (obj_set acc k v) ps"

definition obj_get :: "(string \<times> jsval) list \<Rightarrow> string \<Rightarrow> jsval" where
  "obj_get ps k = (case map_of ps k of None \<Rightarrow> Undefined | Some v \<Rightarrow> v)"

text \<open>
  What can be thrown. \<open>HttpException\<close> (file \<open>http-exception.ts\<close>) carries the
  \<open>response\<close> (a string or an object) and the \<open>status\<close>; its subclasses
  (\<open>ForbiddenException\<close>, ...) are named in the first field, innermost first. A plain
  \<open>Error\<close> carries its message. Anything else thrown is a bare value.
\<close>

datatype http_response = RespStr string | RespObj "(string \<times> jsval) list"

datatype exception =
    HttpException "string list" http_response int
  | PlainError "string list" string
  | ThrownValue jsval

text \<open>\<open>exception instanceof type\<close>, a class being identified by its name.\<close>

fun instanceOf :: "exception \<Rightarrow> string \<Rightarrow> bool" where
  "instanceOf (HttpException subs _ _) c =
     (c \<in> set subs \<or> c = ''HttpException'' \<or> c = ''Error'')"
| "instanceOf (PlainError subs _) c = (c \<in> set subs \<or> c = ''Error'')"
| "instanceOf (ThrownValue _) c = False"

text \<open>\<open>new ForbiddenException(message)\<close>: \<open>super(message, 403)\<close>.\<close>

definition ForbiddenException :: "string \<Rightarrow> exception" where
  "ForbiddenException message = HttpException [''ForbiddenException''] (RespStr message) 403"

definition BadRequestException :: "string \<Rightarrow> exception" where
  "BadRequestException message = HttpException [''BadRequestException''] (RespStr message) 400"

definition NotFoundException :: "string \<Rightarrow> exception" where
  "NotFoundException message = HttpException [''NotFoundException''] (RespStr message) 404"

text \<open>Every \<open>console.log\<close> of the modelled files, with the values it interpolates.\<close>

datatype log =
    LogRequest string string
  | LogSeparator
  | LogStepGuards
  | LogStepPipes
  | LogStepInterceptors
  | LogStepHandler
  | LogStepException
  | LogGuardDenied string
  | LogGuardPassed string
  | LogPipeExec string
  | LogInterceptorEnter string
  | LogInterceptorExit string
  | LogFilterUsed string
  | LogException int jsval

text \<open>
  The \<open>http.ServerResponse\<close>: status code, headers, the value given to
  \<open>JSON.stringify\<close> for \<open>res.end\<close>, and \<open>writableEnded\<close>.
\<close>

record response =
  statusCode :: int
  headers :: "(string \<times> string) list"
  body :: "jsval option"
  writableEnded :: bool

definition fresh_response :: response where
  "fresh_response = \<lparr>statusCode = 200, headers = [], body = None, writableEnded = False\<rparr>"

text \<open>
  Everything a request can change: the console, the response object, and the state of
  the application's own objects (\<open>'u\<close>: services, counters of instrumented stages).
\<close>

record 'u world =
  console :: "log list"
  res :: response
  user :: 'u

text \<open>
  An \<open>async\<close> function run to completion: it either throws or returns, and changes
  the world. Within one request the stages are awaited one after the other.
\<close>

type_synonym ('a, 'u) prog = "'u world \<Rightarrow> (exception + 'a) \<times> 'u world"

definition console_log :: "log \<Rightarrow> 'u world \<Rightarrow> 'u world" where
  "console_log l w = w\<lparr>console := console w @ [l]\<rparr>"

text \<open>\<open>await m\<close> followed by the rest of the function: an exception of \<open>m\<close> ends it.\<close>

definition await :: "('a, 'u) prog \<Rightarrow> ('a \<Rightarrow> ('b, 'u) prog) \<Rightarrow> ('b, 'u) prog" where
  "await m k w = (case m w of (Inl e, w') \<Rightarrow> (Inl e, w') | (Inr a, w') \<Rightarrow> k a w')"

text \<open>\<open>res.setHeader(name, value)\<close> and \<open>res.end(JSON.stringify(value))\<close>.\<close>

definition setHeader :: "string \<Rightarrow> string \<Rightarrow> response \<Rightarrow> response" where
  "setHeader name val r = r\<lparr>headers := AList.update name val (headers r)\<rparr>"

definition end_json :: "jsval \<Rightarrow> response \<Rightarrow> response" where
  "end_json val r = r\<lparr>body := Some val, writableEnded := True\<rparr>"

text \<open>
  The \<open>http.IncomingMessage\<close> as the router reads it: \<open>req.method\<close> (possibly
  undefined), the \<open>pathname\<close> that \<open>new URL(req.url || '/', ...)\<close> yields, and the
  headers.
\<close>

record request =
  req_method :: "string option"
  req_pathname :: string
  req_headers :: "(string \<times> string) list"

text \<open>The \<open>ExecutionContext\<close>: request, controller class and handler (by name).\<close>

record execution_context =
  getRequest :: request
  getClass :: string
  getHandler :: string

section \<open>PipesConsumer\<close>

record argument_metadata =
  am_type :: string
  am_data :: "string option"

record 'u pipe =
  pipe_name :: string
  transform :: "jsval \<Rightarrow> argument_metadata \<Rightarrow> (jsval, 'u) prog"

text \<open>The \<open>for (const pipe of pipes)\<close> loop of \<open>applyPipes\<close>.\<close>

fun applyPipes_loop :: "'u pipe list \<Rightarrow> argument_metadata \<Rightarrow> jsval \<Rightarrow> (jsval, 'u) prog" where
  "applyPipes_loop [] metadata transformedValue w = (Inr transformedValue, w)"
| "applyPipes_loop (p # ps) metadata transformedValue w =
     (case transform p transformedValue metadata (console_log (LogPipeExec (pipe_name p)) w) of
        (Inl e, w') \<Rightarrow> (Inl e, w')
      | (Inr v, w') \<Rightarrow> applyPipes_loop ps metadata v w')"

definition applyPipes :: "jsval \<Rightarrow> argument_metadata \<Rightarrow> 'u pipe list \<Rightarrow> (jsval, 'u) prog" where
  "applyPipes val metadata pipes w =
     (if pipes = [] then (Inr val, w) else applyPipes_loop pipes metadata val w)"

text \<open>
  JavaScript array reads and writes: a read out of range is \<open>undefined\<close>, a write out
  of range extends the array with holes.
\<close>

definition js_get :: "jsval list \<Rightarrow> nat \<Rightarrow> jsval" where
  "js_get xs i = (if i < length xs then xs ! i else Undefined)"

definition js_set :: "jsval list \<Rightarrow> nat \<Rightarrow> jsval \<Rightarrow> jsval list" where
  "js_set xs i v =
     (if i < length xs then xs[i := v]
      else xs @ replicate (i - length xs) Undefined @ [v])"

text \<open>\<open>RouteParamtypes\<close> and one entry of the \<open>ROUTE_ARGS_METADATA\<close> record.\<close>

datatype RouteParamtypes = REQUEST | RESPONSE | BODY | QUERY | PARAM | HEADERS

record route_param_metadata =
  rp_index :: nat
  rp_data :: "string option"
  rp_type :: RouteParamtypes

fun paramTypeToString :: "RouteParamtypes \<Rightarrow> string" where
  "paramTypeToString BODY = ''body''"
| "paramTypeToString QUERY = ''query''"
| "paramTypeToString PARAM = ''param''"
| "paramTypeToString _ = ''custom''"

text \<open>The \<open>ArgumentMetadata\<close> built for one entry.\<close>

definition arg_metadata :: "route_param_metadata \<Rightarrow> argument_metadata" where
  "arg_metadata m = \<lparr>am_type = paramTypeToString (rp_type m), am_data = rp_data m\<rparr>"

text \<open>
  The loop over \<open>Object.keys(argsMetadata)\<close> of \<open>applyPipesToArgs\<close>: every entry
  reads the original \<open>args[index]\<close> and writes \<open>transformedArgs[index]\<close>.
\<close>

fun applyPipesToArgs_loop ::
  "route_param_metadata list \<Rightarrow> jsval list \<Rightarrow> 'u pipe list \<Rightarrow> jsval list \<Rightarrow> (jsval list, 'u) prog" where
  "applyPipesToArgs_loop [] args pipes transformedArgs w = (Inr transformedArgs, w)"
| "applyPipesToArgs_loop (m # ms) args pipes transformedArgs w =
     (case applyPipes (js_get args (rp_index m)) (arg_metadata m) pipes w of
        (Inl e, w') \<Rightarrow> (Inl e, w')
      | (Inr v, w') \<Rightarrow> applyPipesToArgs_loop ms args pipes (js_set transformedArgs (rp_index m) v) w')"

definition applyPipesToArgs ::
  "jsval list \<Rightarrow> 'u pipe list \<Rightarrow> route_param_metadata list \<Rightarrow> (jsval list, 'u) prog" where
  "applyPipesToArgs args pipes argsMetadata w =
     (if pipes = [] then (Inr args, w)
      else applyPipesToArgs_loop argsMetadata args pipes args w)"

text \<open>The two pipes of the unit test: \<open>value + '-first'\<close> and \<open>value + '-second'\<close>.\<close>

fun js_concat :: "jsval \<Rightarrow> string \<Rightarrow> jsval" where
  "js_concat (JStr s) t = JStr (s @ t)"
| "js_concat v t = Undefined"

definition suffix_pipe :: "string \<Rightarrow> 'u pipe" where
  "suffix_pipe s = \<lparr>pipe_name = ''Object'', transform = (\<lambda>v md w. (Inr (js_concat v s), w))\<rparr>"


section \<open>GuardsConsumer\<close>

record 'u guard =
  guard_name :: string
  canActivate :: "execution_context \<Rightarrow> (bool, 'u) prog"

text \<open>The \<open>for (const guard of guards)\<close> loop of \<open>tryActivate\<close>.\<close>

fun tryActivate_loop :: "'u guard list \<Rightarrow> execution_context \<Rightarrow> (bool, 'u) prog" where
  "tryActivate_loop [] context w = (Inr True, w)"
| "tryActivate_loop (g # gs) context w =
     (case canActivate g context w of
        (Inl e, w') \<Rightarrow> (Inl e, w')
      | (Inr result, w') \<Rightarrow>
          if \<not> result
          then (Inl (ForbiddenException ''Forbidden resource''),
                console_log (LogGuardDenied (guard_name g)) w')
          else tryActivate_loop gs context (console_log (LogGuardPassed (guard_name g)) w'))"

definition tryActivate :: "'u guard list \<Rightarrow> execution_context \<Rightarrow> (bool, 'u) prog" where
  "tryActivate guards context w =
     (if guards = [] then (Inr True, w) else tryActivate_loop guards context w)"

section \<open>InterceptorsConsumer\<close>

text \<open>
  A \<open>NestInterceptor\<close>: its \<open>intercept(context, next)\<close> receives the
  \<open>CallHandler\<close>, here the program that \<open>next.handle()\<close> runs.
\<close>

record 'u interceptor =
  interceptor_name :: string
  interceptor_intercept :: "execution_context \<Rightarrow> (jsval, 'u) prog \<Rightarrow> (jsval, 'u) prog"

text \<open>The function that \<open>reduceRight\<close> builds around \<open>nextFn\<close> for one interceptor.\<close>

definition pipeline_step ::
  "execution_context \<Rightarrow> 'u interceptor \<Rightarrow> (jsval, 'u) prog \<Rightarrow> (jsval, 'u) prog" where
  "pipeline_step context i nextFn w =
     (case interceptor_intercept i context nextFn
             (console_log (LogInterceptorEnter (interceptor_name i)) w) of
        (Inl e, w') \<Rightarrow> (Inl e, w')
      | (Inr result, w') \<Rightarrow> (Inr result, console_log (LogInterceptorExit (interceptor_name i)) w'))"

definition intercept ::
  "'u interceptor list \<Rightarrow> execution_context \<Rightarrow> (jsval, 'u) prog \<Rightarrow> (jsval, 'u) prog" where
  "intercept interceptors context next =
     (if interceptors = [] then next
      else foldr (pipeline_step context) interceptors next)"

section \<open>ExceptionsHandler\<close>

text \<open>
  An \<open>ExceptionFilter\<close> instance: the exception classes its constructor carries under
  \<open>FILTER_CATCH_EXCEPTIONS\<close> (from \<open>@Catch(...)\<close>), and its \<open>catch(exception, host)\<close>.
\<close>

record 'u exception_filter =
  filter_name :: string
  filter_catches :: "string list"
  filter_catch :: "exception \<Rightarrow> request \<Rightarrow> (unit, 'u) prog"

fun findFilter :: "'u exception_filter list \<Rightarrow> exception \<Rightarrow> 'u exception_filter option" where
  "findFilter [] exception = None"
| "findFilter (f # fs) exception =
     (if filter_catches f = [] then Some f
      else if list_ex (instanceOf exception) (filter_catches f) then Some f
      else findFilter fs exception)"

text \<open>
  \<open>handleDefault\<close>: the status, the message that is logged, and the body that is
  sent.
\<close>

definition default_message :: string where
  "default_message = ''Internal Server Error''"

fun default_status :: "exception \<Rightarrow> int" where
  "default_status (HttpException _ _ status) = status"
| "default_status _ = 500"

fun default_logged_message :: "exception \<Rightarrow> jsval" where
  "default_logged_message (HttpException _ (RespStr exceptionResponse) _) = JStr exceptionResponse"
| "default_logged_message (HttpException _ (RespObj exceptionResponse) _) =
     (if truthy (obj_get exceptionResponse ''message'')
      then obj_get exceptionResponse ''message'' else JStr default_message)"
| "default_logged_message (PlainError _ message) = JStr message"
| "default_logged_message (ThrownValue _) = JStr default_message"

fun default_body :: "exception \<Rightarrow> jsval" where
  "default_body (HttpException _ (RespStr exceptionResponse) status) =
     JObj [(''statusCode'', JNum status), (''message'', JStr exceptionResponse)]"
| "default_body (HttpException _ (RespObj exceptionResponse) status) =
     JObj (obj_spread [(''statusCode'', JNum status)] exceptionResponse)"
| "default_body (PlainError _ message) =
     JObj [(''statusCode'', JNum 500), (''message'', JStr message)]"
| "default_body (ThrownValue _) =
     JObj [(''statusCode'', JNum 500), (''message'', JStr default_message)]"

definition handleDefault :: "exception \<Rightarrow> 'u world \<Rightarrow> 'u world" where
  "handleDefault exception w =
     (let w1 = console_log (LogException (default_status exception)
                 (default_logged_message exception)) w
      in w1\<lparr>res := end_json (default_body exception)
               (setHeader ''Content-Type'' ''application/json''
                 ((res w1)\<lparr>statusCode := default_status exception\<rparr>))\<rparr>)"

text \<open>The \<open>ExceptionsHandler\<close> object is its \<open>filters\<close> field.\<close>

record 'u ExceptionsHandler =
  filters :: "'u exception_filter list"

definition setCustomFilters :: "'u exception_filter list \<Rightarrow> 'u ExceptionsHandler \<Rightarrow> 'u ExceptionsHandler" where
  "setCustomFilters fs this = this\<lparr>filters := fs\<rparr>"

definition handle :: "'u ExceptionsHandler \<Rightarrow> exception \<Rightarrow> request \<Rightarrow> (unit, 'u) prog" where
  "handle this exception req w =
     (case findFilter (filters this) exception of
        Some f \<Rightarrow> filter_catch f exception req (console_log (LogFilterUsed (filter_name f)) w)
      | None \<Rightarrow> (Inr (), handleDefault exception w))"

section \<open>RouterExecutionContext\<close>

text \<open>
  What \<open>create\<close> is given and what it reflects from the controller class and the
  handler: the handler itself (\<open>handler.apply(instance, args)\<close>), the guards, pipes,
  interceptors and filters declared on the controller and on the method (instances;
  \<open>instantiate\<close> has built those declared by class), and the \<open>ROUTE_ARGS_METADATA\<close>
  of the method in key order.
\<close>

record 'u handler_decl =
  hd_controllerClass :: string
  hd_methodName :: string
  hd_handler :: "jsval list \<Rightarrow> (jsval, 'u) prog"
  hd_controllerGuards :: "'u guard list"
  hd_methodGuards :: "'u guard list"
  hd_controllerPipes :: "'u pipe list"
  hd_methodPipes :: "'u pipe list"
  hd_controllerInterceptors :: "'u interceptor list"
  hd_methodInterceptors :: "'u interceptor list"
  hd_controllerFilters :: "'u exception_filter list"
  hd_methodFilters :: "'u exception_filter list"
  hd_argsMetadata :: "route_param_metadata list"

definition reflectGuards :: "'u handler_decl \<Rightarrow> 'u guard list" where
  "reflectGuards d = hd_controllerGuards d @ hd_methodGuards d"

definition reflectPipes :: "'u handler_decl \<Rightarrow> 'u pipe list" where
  "reflectPipes d = hd_controllerPipes d @ hd_methodPipes d"

definition reflectInterceptors :: "'u handler_decl \<Rightarrow> 'u interceptor list" where
  "reflectInterceptors d = hd_controllerInterceptors d @ hd_methodInterceptors d"

definition reflectFilters :: "'u handler_decl \<Rightarrow> 'u exception_filter list" where
  "reflectFilters d = hd_controllerFilters d @ hd_methodFilters d"

text \<open>
  The \<open>RouterExecutionContext\<close> object: of its four fields only the exceptions handler
  has state.
\<close>

record 'u RouterExecutionContext =
  exceptionsHandler :: "'u ExceptionsHandler"

text \<open>
  The closure that \<open>create\<close> returns. It reads \<open>this.exceptionsHandler\<close> when it
  runs, so it takes the \<open>RouterExecutionContext\<close> of that moment.
\<close>

type_synonym 'u request_handler = "'u RouterExecutionContext \<Rightarrow> request \<Rightarrow> (unit, 'u) prog"

definition createExecutionContext :: "request \<Rightarrow> 'u handler_decl \<Rightarrow> execution_context" where
  "createExecutionContext req d =
     \<lparr>getRequest = req, getClass = hd_controllerClass d, getHandler = hd_methodName d\<rparr>"

text \<open>The \<open>try\<close> block of the closure.\<close>

definition try_block ::
  "'u guard list \<Rightarrow> 'u pipe list \<Rightarrow> 'u interceptor list \<Rightarrow> 'u handler_decl \<Rightarrow>
   (request \<Rightarrow> jsval \<Rightarrow> (jsval list, 'u) prog) \<Rightarrow> (request \<Rightarrow> (jsval, 'u) prog) \<Rightarrow>
   request \<Rightarrow> (unit, 'u) prog" where
  "try_block guards pipes interceptors d resolveParams parseBody req w =
     (let context = createExecutionContext req d
      in await (tryActivate guards context) (\<lambda>_.
         await (parseBody req) (\<lambda>body.
         await (resolveParams req body) (\<lambda>args.
         await (\<lambda>w. applyPipesToArgs args pipes (hd_argsMetadata d) (console_log LogStepPipes w))
           (\<lambda>args.
         await (\<lambda>w. intercept interceptors context
                  (\<lambda>w. hd_handler d args (console_log LogStepHandler w))
                  (console_log LogStepInterceptors w))
           (\<lambda>result w.
              if \<not> writableEnded (res w)
              then (Inr (), w\<lparr>res := end_json result
                                 (setHeader ''Content-Type'' ''application/json'' (res w))\<rparr>)
              else (Inr (), w))))))
        (console_log LogStepGuards w))"

definition request_closure ::
  "'u guard list \<Rightarrow> 'u pipe list \<Rightarrow> 'u interceptor list \<Rightarrow> 'u handler_decl \<Rightarrow>
   (request \<Rightarrow> jsval \<Rightarrow> (jsval list, 'u) prog) \<Rightarrow> (request \<Rightarrow> (jsval, 'u) prog) \<Rightarrow>
   'u request_handler" where
  "request_closure guards pipes interceptors d resolveParams parseBody this req w =
     (case try_block guards pipes interceptors d resolveParams parseBody req w of
        (Inr u, w') \<Rightarrow> (Inr u, w')
      | (Inl error, w') \<Rightarrow>
          handle (exceptionsHandler this) error req (console_log LogStepException w'))"

definition create ::
  "'u RouterExecutionContext \<Rightarrow> 'u handler_decl \<Rightarrow>
   (request \<Rightarrow> jsval \<Rightarrow> (jsval list, 'u) prog) \<Rightarrow> (request \<Rightarrow> (jsval, 'u) prog) \<Rightarrow>
   'u request_handler \<times> 'u RouterExecutionContext" where
  "create this d resolveParams parseBody =
     (let guards = reflectGuards d;
          pipes = reflectPipes d;
          interceptors = reflectInterceptors d;
          fs = reflectFilters d
      in (request_closure guards pipes interceptors d resolveParams parseBody,
          this\<lparr>exceptionsHandler := setCustomFilters fs (exceptionsHandler this)\<rparr>))"

section \<open>RouterExplorer\<close>

record 'u RouteInfo =
  ri_method :: string
  ri_path :: string
  ri_methodName :: string
  ri_controllerClass :: string
  ri_requestHandler :: "'u request_handler"

record 'u RouterExplorer =
  routes :: "'u RouteInfo list"
  executionContext :: "'u RouterExecutionContext"

definition new_RouterExplorer :: "'u RouterExplorer" where
  "new_RouterExplorer = \<lparr>routes = [], executionContext = \<lparr>exceptionsHandler = \<lparr>filters = []\<rparr>\<rparr>\<rparr>"

text \<open>
  \<open>normalizePath\<close>: every part loses its leading and trailing slashes, the empty parts
  are dropped, the rest is joined by \<open>/\<close> behind a leading \<open>/\<close>.
\<close>

definition is_slash :: "char \<Rightarrow> bool" where
  "is_slash c = (c = CHR ''/'')"

definition strip_slashes :: "string \<Rightarrow> string" where
  "strip_slashes p = rev (dropWhile is_slash (rev (dropWhile is_slash p)))"

fun join_slash :: "string list \<Rightarrow> string" where
  "join_slash [] = []"
| "join_slash [p] = p"
| "join_slash (p # ps) = p @ ''/'' @ join_slash ps"

definition normalizePath :: "string list \<Rightarrow> string" where
  "normalizePath paths = ''/'' @ join_slash (filter (\<lambda>p. p \<noteq> []) (map strip_slashes paths))"

text \<open>
  \<open>route.path.replace(/:([^\/]+)/g, '([^/]+)')\<close>: from left to right, every \<open>:\<close>
  that is followed by at least one character other than \<open>/\<close> is replaced, with all
  such characters after it, by the text \<open>([^/]+)\<close>; every other character is kept.
\<close>

definition not_slash :: "char \<Rightarrow> bool" where
  "not_slash c = (c \<noteq> CHR ''/'')"

function routePattern :: "string \<Rightarrow> string" where
  "routePattern [] = []"
| "routePattern (c # t) =
     (if c = CHR '':'' \<and> takeWhile not_slash t \<noteq> []
      then ''([^/]+)'' @ routePattern (dropWhile not_slash t)
      else c # routePattern t)"
  by pat_completeness auto
termination
  by (relation "measure length") (auto simp: le_imp_less_Suc length_dropWhile_le)

text \<open>
  \<open>new RegExp(source).test(pathname)\<close> is the regular-expression engine of the
  JavaScript platform, not code of the repository: it is a parameter of \<open>findRoute\<close>.
  It answers \<open>Inr b\<close> with the result \<open>b\<close> of the test, and \<open>Inl e\<close> when the
  constructor throws \<open>e\<close> because the source is no regular expression.
\<close>

type_synonym RegExp_test = "string \<Rightarrow> string \<Rightarrow> exception + bool"

text \<open>
  \<open>findRoute\<close>: \<open>this.routes.find\<close> with its callback, which tests the method first
  and can throw where it builds the regular expression.
\<close>

fun routes_find ::
  "RegExp_test \<Rightarrow> string \<Rightarrow> string \<Rightarrow> 'u RouteInfo list \<Rightarrow> exception + 'u RouteInfo option" where
  "routes_find rx method pathname [] = Inr None"
| "routes_find rx method pathname (route # rest) =
     (if ri_method route \<noteq> method then routes_find rx method pathname rest
      else (case rx (''^'' @ routePattern (ri_path route) @ ''$'') pathname of
              Inl e \<Rightarrow> Inl e
            | Inr matched \<Rightarrow>
                if matched then Inr (Some route) else routes_find rx method pathname rest))"

definition findRoute ::
  "RegExp_test \<Rightarrow> 'u RouterExplorer \<Rightarrow> string \<Rightarrow> string \<Rightarrow> exception + 'u RouteInfo option" where
  "findRoute rx this method pathname = routes_find rx method pathname (routes this)"

text \<open>\<open>toUpperCase\<close> and \<open>toLowerCase\<close> on the letters of an HTTP method.\<close>

definition toUpperCase :: "string \<Rightarrow> string" where
  "toUpperCase s =
     map (\<lambda>c. case map_of (zip ''abcdefghijklmnopqrstuvwxyz'' ''ABCDEFGHIJKLMNOPQRSTUVWXYZ'') c of
                None \<Rightarrow> c | Some d \<Rightarrow> d) s"

definition toLowerCase :: "string \<Rightarrow> string" where
  "toLowerCase s =
     map (\<lambda>c. case map_of (zip ''ABCDEFGHIJKLMNOPQRSTUVWXYZ'' ''abcdefghijklmnopqrstuvwxyz'') c of
                None \<Rightarrow> c | Some d \<Rightarrow> d) s"

text \<open>The response written for a request that no route matches.\<close>

definition not_found_body :: "string \<Rightarrow> string \<Rightarrow> jsval" where
  "not_found_body method pathname =
     JObj [(''statusCode'', JNum 404),
           (''message'', JStr (''Cannot '' @ toUpperCase method @ '' '' @ pathname))]"

text \<open>
  The function that \<open>createRequestHandler\<close> returns, given to \<open>http.createServer\<close>.
  An exception of \<open>findRoute\<close> rejects its promise; nothing is written to the response.
\<close>

definition createRequestHandler :: "RegExp_test \<Rightarrow> 'u RouterExplorer \<Rightarrow> request \<Rightarrow> (unit, 'u) prog" where
  "createRequestHandler rx this req w =
     (let method = toLowerCase (case req_method req of
                                  None \<Rightarrow> ''GET''
                                | Some m \<Rightarrow> if m = [] then ''GET'' else m);
          pathname = req_pathname req;
          w1 = console_log LogSeparator
                 (console_log (LogRequest (toUpperCase method) pathname)
                   (console_log LogSeparator w))
      in case findRoute rx this method pathname of
           Inl e \<Rightarrow> (Inl e, w1)
         | Inr None \<Rightarrow>
             (Inr (), w1\<lparr>res := end_json (not_found_body method pathname)
                               (setHeader ''Content-Type'' ''application/json''
                                 ((res w1)\<lparr>statusCode := 404\<rparr>))\<rparr>)
         | Inr (Some route) \<Rightarrow> ri_requestHandler route (executionContext this) req w1)"

text \<open>
  What \<open>exploreController\<close> reads of one controller: whether its wrapper holds an
  instance, the \<open>PATH_METADATA\<close> of the class, and for each method of the prototype
  the \<open>PATH_METADATA\<close> and \<open>METHOD_METADATA\<close> of the method with what \<open>create\<close>
  needs.
\<close>

record 'u method_decl =
  md_routePath :: "string option"
  md_requestMethod :: "string option"
  md_decl :: "'u handler_decl"

record 'u controller_decl =
  cd_has_instance :: bool
  cd_path :: "string option"
  cd_methods :: "'u method_decl list"

text \<open>
  \<open>createParamsResolver\<close> and \<open>createBodyParser\<close> rest on the platform's URL and
  JSON parsing; they are parameters here.
\<close>

record 'u platform =
  createParamsResolver :: "string \<Rightarrow> string \<Rightarrow> string \<Rightarrow> request \<Rightarrow> jsval \<Rightarrow> (jsval list, 'u) prog"
  createBodyParser :: "request \<Rightarrow> (jsval, 'u) prog"

text \<open>The \<open>methodNames.forEach\<close> of \<open>exploreController\<close>.\<close>

fun exploreMethods ::
  "'u platform \<Rightarrow> string \<Rightarrow> 'u method_decl list \<Rightarrow> 'u RouterExplorer \<Rightarrow> 'u RouterExplorer" where
  "exploreMethods plat controllerPath [] this = this"
| "exploreMethods plat controllerPath (m # ms) this =
     (case (md_routePath m, md_requestMethod m) of
        (Some routePath, Some requestMethod) \<Rightarrow>
          (let fullPath = normalizePath [controllerPath, routePath];
               d = md_decl m;
               resolveParams = createParamsResolver plat (hd_controllerClass d) (hd_methodName d) fullPath;
               parseBody = createBodyParser plat;
               (requestHandler, ec) = create (executionContext this) d resolveParams parseBody
           in exploreMethods plat controllerPath ms
                (this\<lparr>routes := routes this @
                         [\<lparr>ri_method = requestMethod, ri_path = fullPath,
                           ri_methodName = hd_methodName d,
                           ri_controllerClass = hd_controllerClass d,
                           ri_requestHandler = requestHandler\<rparr>],
                       executionContext := ec\<rparr>))
      | _ \<Rightarrow> exploreMethods plat controllerPath ms this)"

definition exploreController :: "'u platform \<Rightarrow> 'u controller_decl \<Rightarrow> 'u RouterExplorer \<Rightarrow> 'u RouterExplorer" where
  "exploreController plat c this =
     (if \<not> cd_has_instance c then this
      else exploreMethods plat
             (case cd_path c of None \<Rightarrow> ''/'' | Some p \<Rightarrow> if p = [] then ''/'' else p)
             (cd_methods c) this)"

text \<open>
  \<open>explore(moduleRef)\<close> for the controllers of one module, and the loop of
  \<open>MiniNestFactory.create\<close> over all modules: one \<open>RouterExplorer\<close> explores them all.
\<close>

definition explore :: "'u platform \<Rightarrow> 'u controller_decl list \<Rightarrow> 'u RouterExplorer \<Rightarrow> 'u RouterExplorer" where
  "explore plat controllers this = fold (exploreController plat) controllers this"

definition explore_modules :: "'u platform \<Rightarrow> 'u controller_decl list list \<Rightarrow> 'u RouterExplorer" where
  "explore_modules plat cmods = fold (explore plat) cmods new_RouterExplorer"









section \<open>Instrumented components of the unit tests\<close>

text \<open>
  The stages of the tests record their name in the application state, here a list of
  strings (the \<open>order\<close> array of the interceptor test).
\<close>

definition push :: "string \<Rightarrow> string list world \<Rightarrow> string list world" where
  "push s w = w\<lparr>user := user w @ [s]\<rparr>"

definition tracing_interceptor :: "string \<Rightarrow> string list interceptor" where
  "tracing_interceptor name =
     \<lparr>interceptor_name = name,
      interceptor_intercept = (\<lambda>context next w.
         case next (push (name @ ''-before'') w) of
           (Inl e, w') \<Rightarrow> (Inl e, w')
         | (Inr result, w') \<Rightarrow> (Inr result, push (name @ ''-after'') w'))\<rparr>"

definition tracing_handler :: "jsval \<Rightarrow> (jsval, string list) prog" where
  "tracing_handler result w = (Inr result, push ''handler'' w)"

definition cache_interceptor :: "'u interceptor" where
  "cache_interceptor =
     \<lparr>interceptor_name = ''CacheInterceptor'',
      interceptor_intercept = (\<lambda>context next w. (Inr (JObj [(''cached'', JBool True)]), w))\<rparr>"

definition world0 :: "string list world" where
  "world0 = \<lparr>console = [], res = fresh_response, user = []\<rparr>"

definition ctx0 :: execution_context where
  "ctx0 = \<lparr>getRequest = \<lparr>req_method = Some ''GET'', req_pathname = ''/test'', req_headers = []\<rparr>,
           getClass = ''TestController'', getHandler = ''testHandler''\<rparr>"

definition req0 :: request where
  "req0 = \<lparr>req_method = Some ''GET'', req_pathname = ''/test'', req_headers = []\<rparr>"

definition tracing_guard :: "string \<Rightarrow> bool \<Rightarrow> string list guard" where
  "tracing_guard name allow =
     \<lparr>guard_name = name, canActivate = (\<lambda>context w. (Inr allow, push name w))\<rparr>"

definition tracing_pipe :: "string \<Rightarrow> string list pipe" where
  "tracing_pipe name =
     \<lparr>pipe_name = name, transform = (\<lambda>v metadata w. (Inr v, push name w))\<rparr>"

definition tracing_filter :: "string \<Rightarrow> string list \<Rightarrow> string list exception_filter" where
  "tracing_filter name catches =
     \<lparr>filter_name = name, filter_catches = catches,
      filter_catch = (\<lambda>exception req w.
         (Inr (), (push name w)\<lparr>res := end_json (JStr name) ((res w)\<lparr>statusCode := 418\<rparr>)\<rparr>))\<rparr>"


definition tracing_platform :: "string list platform" where
  "tracing_platform =
     \<lparr>createParamsResolver = (\<lambda>controllerClass methodName routePath req body w.
         (Inr [body], push ''resolveParams'' w)),
      createBodyParser = (\<lambda>req w. (Inr (JObj []), push ''parseBody'' w))\<rparr>"

text \<open>
  A regular-expression engine for the route tables below. Their sources are \<open>^\<close>, then
  characters that are not special in a regular expression and groups \<open>([^/]+)\<close>, then
  \<open>$\<close>: a plain character stands for itself, a group for one or more characters other
  than \<open>/\<close>. On any other source this engine throws; it is not meant for them.
\<close>

datatype path_token = Plain char | Group

definition special :: "char list" where
  "special = CHR 0x5C # ''^$.*+?()[]{}|''"

function path_tokens :: "string \<Rightarrow> path_token list option" where
  "path_tokens [] = Some []"
| "path_tokens (c # cs) =
     (if take 7 (c # cs) = ''([^/]+)'' then map_option (Cons Group) (path_tokens (drop 6 cs))
      else if c \<in> set special then None
      else map_option (Cons (Plain c)) (path_tokens cs))"
  by pat_completeness auto
termination
  by (relation "measure length") auto

fun tokens_match :: "path_token list \<Rightarrow> string \<Rightarrow> bool" where
  "tokens_match [] s = (s = [])"
| "tokens_match (Plain c # ts) [] = False"
| "tokens_match (Plain c # ts) (d # s) = (c = d \<and> tokens_match ts s)"
| "tokens_match (Group # ts) [] = False"
| "tokens_match (Group # ts) (d # s) =
     (d \<noteq> CHR ''/'' \<and> (tokens_match ts s \<or> tokens_match (Group # ts) s))"

definition path_RegExp :: RegExp_test where
  "path_RegExp source s =
     (case (case source of
              [] \<Rightarrow> None
            | c # cs \<Rightarrow> if c = CHR ''^'' \<and> cs \<noteq> [] \<and> last cs = CHR ''$''
                        then path_tokens (butlast cs) else None) of
        None \<Rightarrow> Inl (PlainError [''SyntaxError''] ''source outside the route tables'')
      | Some ts \<Rightarrow> Inr (tokens_match ts s))"

text \<open>
  A handler declaration with one guard, one pipe, one interceptor and one filter, all
  recording their name, and a handler that records \<open>handler\<close>.
\<close>

definition tracing_decl :: "string \<Rightarrow> bool \<Rightarrow> string list handler_decl" where
  "tracing_decl methodName allow =
     \<lparr>hd_controllerClass = ''CatsController'', hd_methodName = methodName,
      hd_handler = (\<lambda>args. tracing_handler (JStr methodName)),
      hd_controllerGuards = [tracing_guard ''guard'' allow], hd_methodGuards = [],
      hd_controllerPipes = [tracing_pipe ''pipe''], hd_methodPipes = [],
      hd_controllerInterceptors = [tracing_interceptor ''interceptor''], hd_methodInterceptors = [],
      hd_controllerFilters = [tracing_filter ''filter'' []], hd_methodFilters = [],
      hd_argsMetadata = [\<lparr>rp_index = 0, rp_data = None, rp_type = BODY\<rparr>]\<rparr>"

definition cats_controller :: "string list controller_decl" where
  "cats_controller =
     \<lparr>cd_has_instance = True, cd_path = Some ''cats'',
      cd_methods = [\<lparr>md_routePath = Some ''/'', md_requestMethod = Some ''get'',
                      md_decl = tracing_decl ''findAll'' True\<rparr>,
                    \<lparr>md_routePath = Some '':id'', md_requestMethod = Some ''get'',
                      md_decl = tracing_decl ''findOne'' True\<rparr>,
                    \<lparr>md_routePath = Some ''/'', md_requestMethod = Some ''post'',
                      md_decl = tracing_decl ''create'' False\<rparr>]\<rparr>"

text \<open>The application of one module with the controller above.\<close>

definition cats_app :: "string list RouterExplorer" where
  "cats_app = explore_modules tracing_platform [[cats_controller]]"



section \<open>The container and the scanner\<close>

text \<open>
  A class (\<open>Type<any>\<close>): its identity and its \<open>name\<close>. The container keys modules
  by name, the scanner's registry holds the classes themselves.
\<close>

datatype cls = Class (class_id: nat) (class_name: string)

text \<open>
  What \<open>Reflect.getMetadata\<close> answers for a class: the four lists of \<open>@Module\<close>
  (empty when absent) and \<open>design:paramtypes\<close>, whose entries can be undefined.
\<close>

record reflect =
  rf_imports :: "cls \<Rightarrow> cls list"
  rf_providers :: "cls \<Rightarrow> cls list"
  rf_controllers :: "cls \<Rightarrow> cls list"
  rf_exports :: "cls \<Rightarrow> cls list"
  rf_paramtypes :: "cls \<Rightarrow> cls option list"

text \<open>
  \<open>InstanceWrapper\<close> without its two mutable fields \<open>_instance\<close> and
  \<open>_isResolved\<close>, which the injector's state holds per wrapper; \<open>host\<close> is the token
  of the module that owns the wrapper.
\<close>

datatype Scope = DEFAULT | TRANSIENT | REQUEST

record InstanceWrapper =
  iw_name :: string
  iw_token :: cls
  iw_metatype :: "cls option"
  iw_scope :: Scope
  iw_host :: "string option"

text \<open>
  \<open>Module\<close>: the \<open>Map\<close>s in insertion order, the \<open>Set\<close> of imported modules as
  the list of their tokens in insertion order, the \<open>Set\<close> of exported tokens.
\<close>

record Module =
  m_token :: string
  m_metatype :: cls
  m_providers :: "(cls \<times> InstanceWrapper) list"
  m_controllers :: "(cls \<times> InstanceWrapper) list"
  m_imports :: "string list"
  m_exports :: "cls list"
  m_distance :: nat

record NestContainer =
  modules :: "(string \<times> Module) list"
  globalModules :: "string list"

definition new_NestContainer :: NestContainer where
  "new_NestContainer = \<lparr>modules = [], globalModules = []\<rparr>"

definition new_Module :: "cls \<Rightarrow> string \<Rightarrow> Module" where
  "new_Module metatype token =
     \<lparr>m_token = token, m_metatype = metatype, m_providers = [], m_controllers = [],
      m_imports = [], m_exports = [], m_distance = 0\<rparr>"

text \<open>
  \<open>addModule\<close>: a token already present is left alone; a new module gets
  \<open>distance = scope.length\<close>.
\<close>

definition addModule :: "cls \<Rightarrow> cls list \<Rightarrow> NestContainer \<Rightarrow> NestContainer" where
  "addModule metatype scope this =
     (let token = class_name metatype
      in if map_of (modules this) token \<noteq> None then this
         else this\<lparr>modules := AList.update token
                  ((new_Module metatype token)\<lparr>m_distance := length scope\<rparr>) (modules this)\<rparr>)"

text \<open>
  \<open>scanForModules\<close> with its \<open>for\<close> loop over the imports. The registry is the
  array shared by all recursive calls. The fuel bounds the depth of the recursion; the
  theorems show that more fuel than there are reachable modules is always enough.
\<close>

fun scanForModules ::
  "nat \<Rightarrow> reflect \<Rightarrow> cls \<Rightarrow> cls list \<Rightarrow> cls list \<times> NestContainer \<Rightarrow> (cls list \<times> NestContainer) option"
and scanImports ::
  "nat \<Rightarrow> reflect \<Rightarrow> cls list \<Rightarrow> cls list \<Rightarrow> cls list \<times> NestContainer \<Rightarrow> (cls list \<times> NestContainer) option"
where
  "scanForModules 0 R m scope st = None"
| "scanForModules (Suc fuel) R m scope (registry, container) =
     (if m \<in> set registry then Some (registry, container)
      else scanImports fuel R (rf_imports R m) (scope @ [m])
             (registry @ [m], addModule m scope container))"
| "scanImports fuel R [] scope st = Some st"
| "scanImports fuel R (innerModule # rest) scope st =
     (case scanForModules fuel R innerModule scope st of
        None \<Rightarrow> None
      | Some st' \<Rightarrow> scanImports fuel R rest scope st')"


text \<open>
  The import graph: the modules reachable from the root, and import chains (every
  element imports the next).
\<close>

definition import_edge :: "reflect \<Rightarrow> (cls \<times> cls) set" where
  "import_edge R = {(a, b). b \<in> set (rf_imports R a)}"

definition reach :: "reflect \<Rightarrow> cls \<Rightarrow> cls set" where
  "reach R root = {m. (root, m) \<in> (import_edge R)\<^sup>*}"

fun import_chain :: "reflect \<Rightarrow> cls list \<Rightarrow> bool" where
  "import_chain R [] = False"
| "import_chain R [x] = True"
| "import_chain R (x # y # zs) = (y \<in> set (rf_imports R x) \<and> import_chain R (y # zs))"

definition chain_from :: "reflect \<Rightarrow> cls \<Rightarrow> cls list \<Rightarrow> bool" where
  "chain_from R root path = (import_chain R path \<and> hd path = root)"

text \<open>
  The invariant of the discovery phase: registry and container hold the same modules,
  each token once, and the distance of every entry is the number of import steps of a
  chain from the root to the module.
\<close>

definition entry_ok :: "reflect \<Rightarrow> cls \<Rightarrow> string \<times> Module \<Rightarrow> bool" where
  "entry_ok R root e =
     (m_token (snd e) = fst e \<and> fst e = class_name (m_metatype (snd e))
      \<and> (\<exists>path. chain_from R root path \<and> last path = m_metatype (snd e)
             \<and> length path = Suc (m_distance (snd e))))"

definition scan_inv :: "reflect \<Rightarrow> cls \<Rightarrow> cls list \<times> NestContainer \<Rightarrow> bool" where
  "scan_inv R root st =
     (case st of (registry, container) \<Rightarrow>
        set registry \<subseteq> reach R root \<and> distinct registry
        \<and> set (map fst (modules container)) = class_name ` set registry
        \<and> distinct (map fst (modules container))
        \<and> (\<forall>e \<in> set (modules container). entry_ok R root e \<and> m_metatype (snd e) \<in> set registry)
        \<and> (inj_on class_name (reach R root) \<longrightarrow>
             map (\<lambda>e. m_metatype (snd e)) (modules container) = registry))"


definition scan_step_ok ::
  "reflect \<Rightarrow> cls \<Rightarrow> cls set \<Rightarrow> cls list \<times> NestContainer \<Rightarrow> cls list \<times> NestContainer \<Rightarrow> bool" where
  "scan_step_ok R root need st st' =
     (scan_inv R root st' \<and> set (fst st) \<subseteq> set (fst st') \<and> need \<subseteq> set (fst st')
      \<and> (\<forall>x \<in> set (fst st') - set (fst st). set (rf_imports R x) \<subseteq> set (fst st'))
      \<and> (\<exists>ys. modules (snd st') = modules (snd st) @ ys))"


text \<open>
  Module graphs for the examples: every module with its class id, its name and the ids of
  its imports in declared order.
\<close>

definition module_graph :: "(nat \<times> string \<times> nat list) list \<Rightarrow> reflect" where
  "module_graph g =
     \<lparr>rf_imports = (\<lambda>c. case map_of g (class_id c) of
                          None \<Rightarrow> []
                        | Some (_, is) \<Rightarrow>
                            map (\<lambda>i. Class i (case map_of g i of None \<Rightarrow> [] | Some (n, _) \<Rightarrow> n)) is),
      rf_providers = (\<lambda>c. []), rf_controllers = (\<lambda>c. []), rf_exports = (\<lambda>c. []),
      rf_paramtypes = (\<lambda>c. [])\<rparr>"

definition distances :: "NestContainer \<Rightarrow> (string \<times> nat) list" where
  "distances c = map (\<lambda>e. (fst e, m_distance (snd e))) (modules c)"

definition diamond :: reflect where
  "diamond = module_graph [(0, ''Root'', [1, 2]), (1, ''A'', [2]), (2, ''B'', [])]"

definition deep_diamond :: reflect where
  "deep_diamond =
     module_graph [(0, ''Root'', [1]), (1, ''X'', [2, 3]), (2, ''A'', [3]), (3, ''B'', [])]"

section \<open>The discovery of the specification\<close>

text \<open>
  The depth-first walk of the specification, from the root through the declared imports
  in their order, with a visited set keyed by module identity: the stack holds the
  modules still to visit, each with the import chain that leads to it; a module met for
  the first time is recorded with the length of that chain, and its imports go on top
  of the stack in declared order, each with the chain extended by the module; a module
  met again is dropped. The result lists the modules in the order of their first visit.
\<close>

partial_function (option) first_visit_dfs ::
  "reflect \<Rightarrow> (cls \<times> cls list) list \<Rightarrow> (cls \<times> nat) list \<Rightarrow> (cls \<times> nat) list option" where
  "first_visit_dfs R stack visited =
     (case stack of
        [] \<Rightarrow> Some visited
      | (m, chain) # rest \<Rightarrow>
          if m \<in> fst ` set visited then first_visit_dfs R rest visited
          else first_visit_dfs R (map (\<lambda>i. (i, chain @ [m])) (rf_imports R m) @ rest)
                 (visited @ [(m, length chain)]))"

text \<open>
  The container keys modules by name: of the visits of modules with one name it keeps
  the first.
\<close>

definition by_token :: "(cls \<times> nat) list \<Rightarrow> (cls \<times> nat) list" where
  "by_token visits =
     fold (\<lambda>v kept. if class_name (fst v) \<in> (\<lambda>k. class_name (fst k)) ` set kept then kept else kept @ [v])
       visits []"

text \<open>
  A state of the scanner holds the visits: the registry their modules, the container
  under each name the module and the distance of the first visit with that name.
\<close>

definition visits_of :: "cls list \<times> NestContainer \<Rightarrow> (cls \<times> nat) list \<Rightarrow> bool" where
  "visits_of st visits =
     (fst st = map fst visits
      \<and> map (\<lambda>e. (fst e, m_metatype (snd e), m_distance (snd e))) (modules (snd st))
          = map (\<lambda>v. (class_name (fst v), v)) (by_token visits))"

text \<open>
  A part of the scan takes the state from \<open>st\<close> to \<open>st'\<close> as the walk of the
  specification takes the items off its stack.
\<close>

definition dfs_step ::
  "reflect \<Rightarrow> (cls \<times> cls list) list \<Rightarrow> cls list \<times> NestContainer \<Rightarrow> cls list \<times> NestContainer \<Rightarrow> bool" where
  "dfs_step R items st st' =
     (\<forall>visits. visits_of st visits \<longrightarrow>
        (\<exists>visits'. visits_of st' visits'
           \<and> (\<forall>rest. first_visit_dfs R (items @ rest) visits = first_visit_dfs R rest visits')))"

section \<open>The wiring phase of the scanner\<close>

datatype di_error =
    UnknownModule string
  | UnresolvedParameter string nat
  | UnresolvedDependency string

text \<open>\<open>Set.prototype.add\<close> on a set kept in insertion order.\<close>

definition set_add :: "'a list \<Rightarrow> 'a \<Rightarrow> 'a list" where
  "set_add xs x = (if x \<in> set xs then xs else xs @ [x])"

text \<open>
  The wrapper that \<open>Module.addProvider\<close> and \<open>Module.addController\<close> build:
  \<open>{name: provider.name, token: provider, metatype: provider, host: this}\<close>.
\<close>

definition new_InstanceWrapper :: "cls \<Rightarrow> string \<Rightarrow> InstanceWrapper" where
  "new_InstanceWrapper c host =
     \<lparr>iw_name = class_name c, iw_token = c, iw_metatype = Some c, iw_scope = DEFAULT,
      iw_host = Some host\<rparr>"

definition Module_addProvider :: "cls \<Rightarrow> Module \<Rightarrow> Module" where
  "Module_addProvider provider this =
     this\<lparr>m_providers :=
            AList.update provider (new_InstanceWrapper provider (m_token this)) (m_providers this)\<rparr>"

definition Module_addController :: "cls \<Rightarrow> Module \<Rightarrow> Module" where
  "Module_addController controller this =
     this\<lparr>m_controllers :=
            AList.update controller (new_InstanceWrapper controller (m_token this)) (m_controllers this)\<rparr>"

definition Module_addImport :: "string \<Rightarrow> Module \<Rightarrow> Module" where
  "Module_addImport moduleRef this = this\<lparr>m_imports := set_add (m_imports this) moduleRef\<rparr>"

definition Module_addExport :: "cls \<Rightarrow> Module \<Rightarrow> Module" where
  "Module_addExport token this = this\<lparr>m_exports := set_add (m_exports this) token\<rparr>"

definition hasExport :: "Module \<Rightarrow> cls \<Rightarrow> bool" where
  "hasExport this token = (token \<in> set (m_exports this))"

text \<open>A method call on the module object that the container holds under a token.\<close>

definition update_module :: "string \<Rightarrow> (Module \<Rightarrow> Module) \<Rightarrow> NestContainer \<Rightarrow> NestContainer" where
  "update_module token f this = this\<lparr>modules := AList.map_entry token f (modules this)\<rparr>"

definition addProvider :: "cls \<Rightarrow> string \<Rightarrow> NestContainer \<Rightarrow> di_error + NestContainer" where
  "addProvider provider token this =
     (case map_of (modules this) token of
        None \<Rightarrow> Inl (UnknownModule token)
      | Some moduleRef \<Rightarrow> Inr (update_module token (Module_addProvider provider) this))"

definition addController :: "cls \<Rightarrow> string \<Rightarrow> NestContainer \<Rightarrow> di_error + NestContainer" where
  "addController controller token this =
     (case map_of (modules this) token of
        None \<Rightarrow> Inl (UnknownModule token)
      | Some moduleRef \<Rightarrow> Inr (update_module token (Module_addController controller) this))"

definition addImport :: "cls \<Rightarrow> string \<Rightarrow> NestContainer \<Rightarrow> NestContainer" where
  "addImport relatedModule token this =
     (case (map_of (modules this) token, map_of (modules this) (class_name relatedModule)) of
        (Some moduleRef, Some relatedModuleRef) \<Rightarrow>
          update_module token (Module_addImport (m_token relatedModuleRef)) this
      | _ \<Rightarrow> this)"

definition addExport :: "string \<Rightarrow> cls \<Rightarrow> NestContainer \<Rightarrow> NestContainer" where
  "addExport token exportToken this =
     (case map_of (modules this) token of
        None \<Rightarrow> this
      | Some moduleRef \<Rightarrow> update_module token (Module_addExport exportToken) this)"

text \<open>A \<open>forEach\<close> whose body can throw.\<close>

fun forEach_throwing :: "('a \<Rightarrow> 's \<Rightarrow> 'e + 's) \<Rightarrow> 'a list \<Rightarrow> 's \<Rightarrow> 'e + 's" where
  "forEach_throwing f [] s = Inr s"
| "forEach_throwing f (x # xs) s =
     (case f x s of Inl e \<Rightarrow> Inl e | Inr s' \<Rightarrow> forEach_throwing f xs s')"

definition reflectImports :: "reflect \<Rightarrow> cls \<Rightarrow> string \<Rightarrow> NestContainer \<Rightarrow> NestContainer" where
  "reflectImports R module token c =
     fold (\<lambda>relatedModule. addImport relatedModule token) (rf_imports R module) c"

definition reflectProviders :: "reflect \<Rightarrow> cls \<Rightarrow> string \<Rightarrow> NestContainer \<Rightarrow> di_error + NestContainer" where
  "reflectProviders R module token c =
     forEach_throwing (\<lambda>provider. addProvider provider token) (rf_providers R module) c"

definition reflectControllers :: "reflect \<Rightarrow> cls \<Rightarrow> string \<Rightarrow> NestContainer \<Rightarrow> di_error + NestContainer" where
  "reflectControllers R module token c =
     forEach_throwing (\<lambda>controller. addController controller token) (rf_controllers R module) c"

definition reflectExports :: "reflect \<Rightarrow> cls \<Rightarrow> string \<Rightarrow> NestContainer \<Rightarrow> NestContainer" where
  "reflectExports R module token c =
     fold (\<lambda>exportToken. addExport token exportToken) (rf_exports R module) c"

text \<open>
  \<open>scanModulesForDependencies\<close>: the loop over the entries of the modules map; the
  module object of an entry is read when its turn comes.
\<close>

definition scanModule :: "reflect \<Rightarrow> string \<Rightarrow> NestContainer \<Rightarrow> di_error + NestContainer" where
  "scanModule R token c =
     (case map_of (modules c) token of
        None \<Rightarrow> Inr c
      | Some moduleRef \<Rightarrow>
          (let metatype = m_metatype moduleRef
           in case reflectProviders R metatype token (reflectImports R metatype token c) of
                Inl e \<Rightarrow> Inl e
              | Inr c1 \<Rightarrow>
                  (case reflectControllers R metatype token c1 of
                     Inl e \<Rightarrow> Inl e
                   | Inr c2 \<Rightarrow> Inr (reflectExports R metatype token c2))))"

definition scanModulesForDependencies :: "reflect \<Rightarrow> NestContainer \<Rightarrow> di_error + NestContainer" where
  "scanModulesForDependencies R c = forEach_throwing (scanModule R) (map fst (modules c)) c"

definition bindGlobalScope :: "NestContainer \<Rightarrow> NestContainer" where
  "bindGlobalScope this =
     fold (\<lambda>moduleRef c.
             fold (\<lambda>globalModule c.
                     if moduleRef \<noteq> globalModule
                     then update_module moduleRef (Module_addImport globalModule) c else c)
               (globalModules c) c)
       (map fst (modules this)) this"

text \<open>\<open>DependenciesScanner.scan\<close>; \<open>None\<close> when the fuel of the discovery runs out.\<close>

definition scan :: "nat \<Rightarrow> reflect \<Rightarrow> cls \<Rightarrow> NestContainer \<Rightarrow> (di_error + NestContainer) option" where
  "scan fuel R module c =
     (case scanForModules fuel R module [] ([], c) of
        None \<Rightarrow> None
      | Some (registry, c1) \<Rightarrow>
          Some (case scanModulesForDependencies R c1 of
                  Inl e \<Rightarrow> Inl e
                | Inr c2 \<Rightarrow> Inr (bindGlobalScope c2)))"

section \<open>Asynchronous functions\<close>

text \<open>
  A call of an \<open>async\<close> function runs synchronously up to its first \<open>await\<close> and
  hands back a promise. The promise is modelled by what is left of the call: it has
  returned, it has thrown, or it is suspended with the code that runs when the event
  loop resumes it, which again ends in one of these. A call is a function from the
  state, for its synchronous part. \<open>OutOfFuel\<close> marks a call cut off by the fuel of the
  model.
\<close>

datatype ('a, 's, 'e) async =
    Done 'a
  | Failed 'e
  | OutOfFuel
  | Suspended "'s \<Rightarrow> ('a, 's, 'e) async \<times> 's"

type_synonym ('a, 's, 'e) call = "'s \<Rightarrow> ('a, 's, 'e) async \<times> 's"

text \<open>
  \<open>await p\<close> followed by the rest \<open>k\<close> of the function: the rest never runs in the
  same turn, also when \<open>p\<close> is settled already; a rejected \<open>p\<close> rejects the awaiting
  function (no function of the injector catches).
\<close>

primrec await_async ::
  "('a, 's, 'e) async \<Rightarrow> ('a \<Rightarrow> ('b, 's, 'e) call) \<Rightarrow> ('b, 's, 'e) async" where
  "await_async (Done a) k = Suspended (k a)"
| "await_async (Failed e) k = Suspended (\<lambda>s. (Failed e, s))"
| "await_async OutOfFuel k = OutOfFuel"
| "await_async (Suspended c) k = Suspended (\<lambda>s. map_prod (\<lambda>r. await_async r k) id (c s))"

text \<open>\<open>await f(...)\<close>: the call \<open>f(...)\<close> starts at once, its promise is awaited.\<close>

definition await_call ::
  "('a, 's, 'e) call \<Rightarrow> ('a \<Rightarrow> ('b, 's, 'e) call) \<Rightarrow> ('b, 's, 'e) call" where
  "await_call m k s = (case m s of (r, s') \<Rightarrow> (await_async r k, s'))"

text \<open>\<open>xs.map(f)\<close> for an async \<open>f\<close>: the calls start one after the other.\<close>

fun start_all :: "('a, 's, 'e) call list \<Rightarrow> 's \<Rightarrow> ('a, 's, 'e) async list \<times> 's" where
  "start_all [] s = ([], s)"
| "start_all (m # ms) s =
     (case m s of (r, s1) \<Rightarrow> (case start_all ms s1 of (rs, s2) \<Rightarrow> (r # rs, s2)))"

text \<open>One turn of the event loop for promises that are pending side by side.\<close>

fun step_all :: "('a, 's, 'e) async list \<Rightarrow> 's \<Rightarrow> ('a, 's, 'e) async list \<times> 's" where
  "step_all [] s = ([], s)"
| "step_all (Suspended c # rs) s =
     (case c s of (r, s1) \<Rightarrow> (case step_all rs s1 of (rs', s2) \<Rightarrow> (r # rs', s2)))"
| "step_all (r # rs) s = (case step_all rs s of (rs', s2) \<Rightarrow> (r # rs', s2))"

fun first_failure :: "('a, 's, 'e) async list \<Rightarrow> 'e option" where
  "first_failure [] = None"
| "first_failure (Failed e # rs) = Some e"
| "first_failure (r # rs) = first_failure rs"

fun all_done :: "('a, 's, 'e) async list \<Rightarrow> 'a list option" where
  "all_done [] = Some []"
| "all_done (Done a # rs) = (case all_done rs of None \<Rightarrow> None | Some as \<Rightarrow> Some (a # as))"
| "all_done (r # rs) = None"

fun any_out_of_fuel :: "('a, 's, 'e) async list \<Rightarrow> bool" where
  "any_out_of_fuel [] = False"
| "any_out_of_fuel (OutOfFuel # rs) = True"
| "any_out_of_fuel (r # rs) = any_out_of_fuel rs"

text \<open>
  The promise of \<open>Promise.all\<close>: rejected with the first rejection, fulfilled with all
  the values once every element is fulfilled, pending while the elements take their
  turns. The fuel bounds the number of turns.
\<close>

definition settled_now :: "('a, 's, 'e) async list \<Rightarrow> ('a list, 's, 'e) async option" where
  "settled_now rs =
     (case first_failure rs of
        Some e \<Rightarrow> Some (Failed e)
      | None \<Rightarrow> if any_out_of_fuel rs then Some OutOfFuel else map_option Done (all_done rs))"

fun all_settled :: "nat \<Rightarrow> ('a, 's, 'e) async list \<Rightarrow> ('a list, 's, 'e) async" where
  "all_settled 0 rs = (case settled_now rs of Some r \<Rightarrow> r | None \<Rightarrow> OutOfFuel)"
| "all_settled (Suc fuel) rs =
     (case settled_now rs of
        Some r \<Rightarrow> r
      | None \<Rightarrow> Suspended (\<lambda>s. case step_all rs s of (rs', s') \<Rightarrow> (all_settled fuel rs', s')))"

text \<open>
  \<open>Promise.all(xs.map(f))\<close>: all calls start first, in order; \<open>Promise.all\<close> then
  attaches its reaction to every promise, which takes one more turn after the promise is
  settled (none for the empty list).
\<close>

definition Promise_all :: "nat \<Rightarrow> ('a, 's, 'e) call list \<Rightarrow> ('a list, 's, 'e) call" where
  "Promise_all fuel ms s =
     (case start_all ms s of
        (rs, s') \<Rightarrow> (all_settled fuel (map (\<lambda>r. await_async r (\<lambda>a s. (Done a, s))) rs), s'))"

text \<open>
  A promise awaited at top level, with nothing else pending: the event loop resumes it
  until it is settled.
\<close>

fun run :: "nat \<Rightarrow> ('a, 's, 'e) async \<Rightarrow> 's \<Rightarrow> ('a, 's, 'e) async \<times> 's" where
  "run 0 (Suspended c) s = (OutOfFuel, s)"
| "run (Suc fuel) (Suspended c) s = (case c s of (r, s') \<Rightarrow> run fuel r s')"
| "run fuel r s = (r, s)"

text \<open>The value of a fulfilled promise.\<close>

fun fulfilled_with :: "('a, 's, 'e) async \<Rightarrow> 'a option" where
  "fulfilled_with (Done a) = Some a"
| "fulfilled_with r = None"

section \<open>The injector\<close>

text \<open>
  An object built by \<open>new metatype(...instances)\<close>: its number in the order of
  construction, its class and the constructor arguments. Constructors are taken to
  build their object and do nothing else.
\<close>

datatype inst = Inst nat cls "inst option list"

text \<open>
  A wrapper is found in the providers or in the controllers of one module under one
  class.
\<close>

datatype wrapper_ref = ProviderOf string cls | ControllerOf string cls

text \<open>
  The state of instantiation: the container as the scanner left it, the fields
  \<open>_instance\<close> and \<open>_isResolved\<close> of every wrapper, and the objects constructed so far.
\<close>

record injection =
  container :: NestContainer
  instance_of :: "wrapper_ref \<Rightarrow> inst option"
  isResolved :: "wrapper_ref \<Rightarrow> bool"
  constructed :: "inst list"

definition new_injection :: "NestContainer \<Rightarrow> injection" where
  "new_injection c =
     \<lparr>container = c, instance_of = (\<lambda>w. None), isResolved = (\<lambda>w. False), constructed = []\<rparr>"

definition get_module :: "injection \<Rightarrow> string \<Rightarrow> Module option" where
  "get_module s token = map_of (modules (container s)) token"

fun get_wrapper :: "injection \<Rightarrow> wrapper_ref \<Rightarrow> InstanceWrapper option" where
  "get_wrapper s (ProviderOf token c) =
     (case get_module s token of None \<Rightarrow> None | Some m \<Rightarrow> map_of (m_providers m) c)"
| "get_wrapper s (ControllerOf token c) =
     (case get_module s token of None \<Rightarrow> None | Some m \<Rightarrow> map_of (m_controllers m) c)"

text \<open>
  \<open>wrapper.instance = new metatype(...instances); wrapper.setResolved()\<close>.
\<close>

definition construct :: "wrapper_ref \<Rightarrow> cls \<Rightarrow> inst option list \<Rightarrow> injection \<Rightarrow> injection" where
  "construct w metatype instances s =
     (let obj = Inst (length (constructed s)) metatype instances
      in s\<lparr>instance_of := (instance_of s)(w := Some obj),
           isResolved := (isResolved s)(w := True),
           constructed := constructed s @ [obj]\<rparr>)"

definition setResolved :: "wrapper_ref \<Rightarrow> injection \<Rightarrow> injection" where
  "setResolved w s = s\<lparr>isResolved := (isResolved s)(w := True)\<rparr>"

type_synonym 'a injector_call = "('a, injection, di_error) call"

text \<open>
  \<open>lookupComponentInImports\<close> with its loop over \<open>moduleRef.imports\<close>. The fuel bounds
  the depth of the recursion through the imports.
\<close>

fun lookupComponentInImports :: "nat \<Rightarrow> string \<Rightarrow> cls \<Rightarrow> wrapper_ref option injector_call"
and lookup_loop :: "nat \<Rightarrow> string list \<Rightarrow> cls \<Rightarrow> wrapper_ref option injector_call"
where
  "lookupComponentInImports 0 moduleRef token = (\<lambda>s. (OutOfFuel, s))"
| "lookupComponentInImports (Suc fuel) moduleRef token =
     (\<lambda>s. case get_module s moduleRef of
             None \<Rightarrow> (Done None, s)
           | Some m \<Rightarrow> lookup_loop fuel (m_imports m) token s)"
| "lookup_loop fuel [] token = (\<lambda>s. (Done None, s))"
| "lookup_loop fuel (relatedModule # rest) token =
     (\<lambda>s. case get_module s relatedModule of
             None \<Rightarrow> lookup_loop fuel rest token s
           | Some related \<Rightarrow>
               if \<not> hasExport related token
               then await_call (lookupComponentInImports fuel relatedModule token)
                      (\<lambda>found. case found of
                                  Some w \<Rightarrow> (\<lambda>s. (Done (Some w), s))
                                | None \<Rightarrow> lookup_loop fuel rest token) s
               else (case map_of (m_providers related) token of
                       Some provider \<Rightarrow> (Done (Some (ProviderOf relatedModule token)), s)
                     | None \<Rightarrow> lookup_loop fuel rest token s))"

text \<open>
  \<open>instanceWrapper.host || moduleRef\<close>.
\<close>

definition host_of :: "injection \<Rightarrow> wrapper_ref \<Rightarrow> string \<Rightarrow> string" where
  "host_of s w moduleRef =
     (case get_wrapper s w of
        Some wrapper \<Rightarrow> (case iw_host wrapper of Some h \<Rightarrow> h | None \<Rightarrow> moduleRef)
      | None \<Rightarrow> moduleRef)"

definition wrapper_name :: "injection \<Rightarrow> wrapper_ref \<Rightarrow> string" where
  "wrapper_name s w = (case get_wrapper s w of Some wrapper \<Rightarrow> iw_name wrapper | None \<Rightarrow> [])"

text \<open>
  \<open>loadProvider\<close>, \<open>resolveConstructorParams\<close> and \<open>resolveSingleParam\<close>, the
  latter split where its wrapper is known (\<open>resolve_found\<close>). The fuel bounds the
  depth of the chain of dependencies.
\<close>

function loadProvider :: "nat \<Rightarrow> reflect \<Rightarrow> wrapper_ref \<Rightarrow> string \<Rightarrow> unit injector_call"
and resolveConstructorParams :: "nat \<Rightarrow> reflect \<Rightarrow> wrapper_ref \<Rightarrow> string \<Rightarrow> unit injector_call"
and resolveSingleParam ::
  "nat \<Rightarrow> reflect \<Rightarrow> cls option \<Rightarrow> string \<Rightarrow> wrapper_ref \<Rightarrow> nat \<Rightarrow> inst option injector_call"
and resolve_found :: "nat \<Rightarrow> reflect \<Rightarrow> wrapper_ref option \<Rightarrow> string \<Rightarrow> cls \<Rightarrow> inst option injector_call"
where
  "loadProvider 0 R wrapper moduleRef = (\<lambda>s. (OutOfFuel, s))"
| "loadProvider (Suc fuel) R wrapper moduleRef =
     (\<lambda>s. if isResolved s wrapper then (Done (), s)
          else await_call (resolveConstructorParams fuel R wrapper moduleRef)
                 (\<lambda>_ s. (Done (), s)) s)"
| "resolveConstructorParams fuel R wrapper moduleRef =
     (\<lambda>s. case (case get_wrapper s wrapper of None \<Rightarrow> None | Some iw \<Rightarrow> iw_metatype iw) of
             None \<Rightarrow> (Done (), setResolved wrapper s)
           | Some metatype \<Rightarrow>
               await_call
                 (Promise_all fuel
                    (map (\<lambda>(dependency, index).
                            resolveSingleParam fuel R dependency moduleRef wrapper index)
                       (zip (rf_paramtypes R metatype) [0 ..< length (rf_paramtypes R metatype)])))
                 (\<lambda>instances s. (Done (), construct wrapper metatype instances s)) s)"
| "resolveSingleParam fuel R dependency moduleRef wrapper index =
     (\<lambda>s. case dependency of
             None \<Rightarrow> (Failed (UnresolvedParameter (wrapper_name s wrapper) index), s)
           | Some dep \<Rightarrow>
               (case get_wrapper s (ProviderOf moduleRef dep) of
                  Some instanceWrapper \<Rightarrow>
                    resolve_found fuel R (Some (ProviderOf moduleRef dep)) moduleRef dep s
                | None \<Rightarrow>
                    await_call (lookupComponentInImports fuel moduleRef dep)
                      (\<lambda>found. resolve_found fuel R found moduleRef dep) s))"
| "resolve_found fuel R None moduleRef dep =
     (\<lambda>s. (Failed (UnresolvedDependency (class_name dep)), s))"
| "resolve_found fuel R (Some instanceWrapper) moduleRef dep =
     (\<lambda>s. if \<not> isResolved s instanceWrapper
          then await_call (loadProvider fuel R instanceWrapper (host_of s instanceWrapper moduleRef))
                 (\<lambda>_ s. (Done (instance_of s instanceWrapper), s)) s
          else (Done (instance_of s instanceWrapper), s))"
  by pat_completeness auto
termination
  by (relation "measure (case_sum
          (case_sum (\<lambda>(n, _). 4 * n) (\<lambda>(n, _). 4 * n + 3))
          (case_sum (\<lambda>(n, _). 4 * n + 2) (\<lambda>(n, _). 4 * n + 1)))") auto

definition loadController :: "nat \<Rightarrow> reflect \<Rightarrow> wrapper_ref \<Rightarrow> string \<Rightarrow> unit injector_call" where
  "loadController = loadProvider"

section \<open>MiniNestFactory\<close>

text \<open>
  \<open>[...modules.values()].sort((a, b) => a.distance - b.distance)\<close>: a stable sort by
  ascending distance.
\<close>

definition sortedModules :: "NestContainer \<Rightarrow> Module list" where
  "sortedModules c = sort_key m_distance (map snd (modules c))"

text \<open>
  The calls \<open>loadProvider(wrapper, moduleRef)\<close> of the first pair of loops of
  \<open>createInstances\<close>, and the calls \<open>loadController(wrapper, moduleRef)\<close> of the
  second, in the order in which the loops make them.
\<close>

definition provider_calls :: "NestContainer \<Rightarrow> (wrapper_ref \<times> string) list" where
  "provider_calls c =
     concat (map (\<lambda>moduleRef. map (\<lambda>entry. (ProviderOf (m_token moduleRef) (fst entry), m_token moduleRef))
                                  (m_providers moduleRef))
               (sortedModules c))"

definition controller_calls :: "NestContainer \<Rightarrow> (wrapper_ref \<times> string) list" where
  "controller_calls c =
     concat (map (\<lambda>moduleRef. map (\<lambda>entry. (ControllerOf (m_token moduleRef) (fst entry), m_token moduleRef))
                                  (m_controllers moduleRef))
               (sortedModules c))"

text \<open>
  A loop of \<open>await injector.loadProvider(wrapper, moduleRef)\<close>, or of
  \<open>await injector.loadController(wrapper, moduleRef)\<close>: every call is awaited before
  the next one starts; an exception ends the loop. The lines that \<open>createInstances\<close>
  writes to the console are left out.
\<close>

fun load_each ::
  "(nat \<Rightarrow> reflect \<Rightarrow> wrapper_ref \<Rightarrow> string \<Rightarrow> unit injector_call) \<Rightarrow>
   nat \<Rightarrow> reflect \<Rightarrow> (wrapper_ref \<times> string) list \<Rightarrow> injection \<Rightarrow>
   (unit, injection, di_error) async \<times> injection" where
  "load_each load fuel R [] s = (Done (), s)"
| "load_each load fuel R (call # rest) s =
     (case (case load fuel R (fst call) (snd call) s of (r, s1) \<Rightarrow> run fuel r s1) of
        (Done _, s') \<Rightarrow> load_each load fuel R rest s'
      | (Failed e, s') \<Rightarrow> (Failed e, s')
      | (_, s') \<Rightarrow> (OutOfFuel, s'))"

definition createInstances ::
  "nat \<Rightarrow> reflect \<Rightarrow> injection \<Rightarrow> (unit, injection, di_error) async \<times> injection" where
  "createInstances fuel R s =
     (case load_each loadProvider fuel R (provider_calls (container s)) s of
        (Done _, s1) \<Rightarrow> load_each loadController fuel R (controller_calls (container s)) s1
      | other \<Rightarrow> other)"

text \<open>
  \<open>MiniNestFactory.create\<close> up to route extraction: a new container, the scan, the
  instantiation.
\<close>

definition create_container ::
  "nat \<Rightarrow> reflect \<Rightarrow> cls \<Rightarrow> (unit, injection, di_error) async \<times> injection" where
  "create_container fuel R module =
     (case scan fuel R module new_NestContainer of
        None \<Rightarrow> (OutOfFuel, new_injection new_NestContainer)
      | Some (Inl e) \<Rightarrow> (Failed e, new_injection new_NestContainer)
      | Some (Inr c) \<Rightarrow> createInstances fuel R (new_injection c))"

section \<open>What the injector keeps\<close>

text \<open>
  Between two turns of a suspended call other calls may run. Whatever runs, the
  injector leaves the container alone and never takes the flag \<open>_isResolved\<close> of a
  wrapper back: \<open>grows s t\<close> says that \<open>t\<close> can follow \<open>s\<close>.
\<close>

definition grows :: "injection \<Rightarrow> injection \<Rightarrow> bool" where
  "grows s t = (container t = container s \<and> (\<forall>w. isResolved s w \<longrightarrow> isResolved t w))"

text \<open>
  \<open>keeps Q r s\<close>: from \<open>s\<close> on, and with any state that follows in between, every
  turn of the promise \<open>r\<close> gives a state that follows, and a fulfilled \<open>r\<close> has
  \<open>Q\<close> of its value and state.
\<close>

primrec keeps ::
  "('a \<Rightarrow> injection \<Rightarrow> bool) \<Rightarrow> ('a, injection, di_error) async \<Rightarrow> injection \<Rightarrow> bool" where
  "keeps Q (Done a) = (\<lambda>s. Q a s)"
| "keeps Q (Failed e) = (\<lambda>s. True)"
| "keeps Q OutOfFuel = (\<lambda>s. True)"
| "keeps Q (Suspended c) =
     (\<lambda>s. \<forall>t. grows s t \<longrightarrow> (case map_prod (keeps Q) id (c t) of (q, t') \<Rightarrow> grows t t' \<and> q t'))"


text \<open>The same for a call, from its synchronous part on.\<close>

definition ok :: "('a \<Rightarrow> injection \<Rightarrow> bool) \<Rightarrow> 'a injector_call \<Rightarrow> injection \<Rightarrow> bool" where
  "ok Q m s = (grows s (snd (m s)) \<and> keeps Q (fst (m s)) (snd (m s)))"



section \<open>The visibility search of the specification\<close>

text \<open>
  Step 2 of the visibility search for token \<open>T\<close> starting at module \<open>M\<close>, in the
  words of the specification: for each module \<open>R\<close> imported by \<open>M\<close>, in declared
  order, if \<open>R\<close> exports \<open>T\<close>, return the binding of \<open>R\<close> for \<open>T\<close>; if \<open>R\<close> does not
  export \<open>T\<close>, recurse the search into the imports of \<open>R\<close>; return the first hit. The
  outer \<open>None\<close> is a search cut off by the bound on its depth, \<open>Some None\<close> a search
  without a hit.
\<close>

fun visibility_search :: "nat \<Rightarrow> NestContainer \<Rightarrow> string \<Rightarrow> cls \<Rightarrow> wrapper_ref option option"
and search_imports :: "nat \<Rightarrow> NestContainer \<Rightarrow> string list \<Rightarrow> cls \<Rightarrow> wrapper_ref option option"
where
  "visibility_search 0 c M T = None"
| "visibility_search (Suc depth) c M T =
     (case map_of (modules c) M of
        None \<Rightarrow> Some None
      | Some m \<Rightarrow> search_imports depth c (m_imports m) T)"
| "search_imports depth c [] T = Some None"
| "search_imports depth c (R # Rs) T =
     (case map_of (modules c) R of
        None \<Rightarrow> search_imports depth c Rs T
      | Some r \<Rightarrow>
          if T \<in> set (m_exports r) then Some (Some (ProviderOf R T))
          else (case visibility_search depth c R T of
                  None \<Rightarrow> None
                | Some (Some hit) \<Rightarrow> Some (Some hit)
                | Some None \<Rightarrow> search_imports depth c Rs T))"

text \<open>
  The data model of the specification: the exported tokens of a module are tokens it
  provides.
\<close>

definition exports_provided :: "NestContainer \<Rightarrow> bool" where
  "exports_provided c =
     list_all (\<lambda>e. list_all (\<lambda>T. map_of (m_providers (snd e)) T \<noteq> None) (m_exports (snd e)))
       (modules c)"

text \<open>
  The imports have no cycle: every module is ranked above the modules it imports (a
  class names its imports in its decorator, so they are declared before it).
\<close>

definition ranked :: "NestContainer \<Rightarrow> (string \<Rightarrow> nat) \<Rightarrow> bool" where
  "ranked c rank =
     list_all (\<lambda>e. list_all (\<lambda>R. rank R < rank (fst e)) (m_imports (snd e))) (modules c)"

text \<open>
  A chain of imports from \<open>M\<close>, each module imported by the one before it, whose last
  module exports \<open>T\<close>.
\<close>

fun exported_along :: "NestContainer \<Rightarrow> cls \<Rightarrow> string \<Rightarrow> string list \<Rightarrow> bool" where
  "exported_along c T M [] = False"
| "exported_along c T M (R # path) =
     (case (map_of (modules c) M, map_of (modules c) R) of
        (Some m, Some r) \<Rightarrow>
          R \<in> set (m_imports m)
          \<and> (if path = [] then T \<in> set (m_exports r) else exported_along c T R path)
      | _ \<Rightarrow> False)"

text \<open>
  \<open>yields c v r\<close>: whatever else runs between its turns, as long as the container
  stays \<open>c\<close>, the promise \<open>r\<close> is fulfilled with \<open>v\<close> and none of its turns changes
  the state.
\<close>

primrec yields :: "NestContainer \<Rightarrow> 'a \<Rightarrow> ('a, injection, di_error) async \<Rightarrow> bool" where
  "yields c v (Done a) = (a = v)"
| "yields c v (Failed e) = False"
| "yields c v OutOfFuel = False"
| "yields c v (Suspended k) =
     (\<forall>t. container t = c \<longrightarrow> (case map_prod (yields c v) id (k t) of (q, t') \<Rightarrow> q \<and> t' = t))"

section \<open>Applications for the container\<close>

text \<open>
  An application of three modules: \<open>AppModule\<close> imports \<open>FeatureModule\<close>, which imports
  \<open>SharedModule\<close> and exports nothing; \<open>SharedModule\<close> provides and exports
  \<open>SharedService\<close>; \<open>AppModule\<close> provides \<open>AppService\<close>, whose constructor takes a
  \<open>SharedService\<close>, and has the controller \<open>AppController\<close>, whose constructor takes an
  \<open>AppService\<close>.
\<close>

definition AppModule :: cls where "AppModule = Class 0 ''AppModule''"
definition FeatureModule :: cls where "FeatureModule = Class 1 ''FeatureModule''"
definition SharedModule :: cls where "SharedModule = Class 2 ''SharedModule''"
definition SharedService :: cls where "SharedService = Class 3 ''SharedService''"
definition AppService :: cls where "AppService = Class 4 ''AppService''"
definition AppController :: cls where "AppController = Class 5 ''AppController''"

definition shared_app :: reflect where
  "shared_app =
     \<lparr>rf_imports = (\<lambda>c. if c = AppModule then [FeatureModule]
                         else if c = FeatureModule then [SharedModule] else []),
      rf_providers = (\<lambda>c. if c = AppModule then [AppService]
                           else if c = SharedModule then [SharedService] else []),
      rf_controllers = (\<lambda>c. if c = AppModule then [AppController] else []),
      rf_exports = (\<lambda>c. if c = SharedModule then [SharedService] else []),
      rf_paramtypes = (\<lambda>c. if c = AppService then [Some SharedService]
                            else if c = AppController then [Some AppService] else [])\<rparr>"

definition shared_container :: NestContainer where
  "shared_container =
     (case scan 5 shared_app AppModule new_NestContainer of
        Some (Inr c) \<Rightarrow> c
      | _ \<Rightarrow> new_NestContainer)"

definition shared_rank :: "string \<Rightarrow> nat" where
  "shared_rank token =
     (if token = ''AppModule'' then 2 else if token = ''FeatureModule'' then 1 else 0)"

text \<open>
  An application of one module with four providers, declared in this order:
  \<open>ReportService\<close>, whose constructor takes a \<open>UsersService\<close> and a \<open>CatsService\<close>;
  \<open>UsersService\<close> and \<open>CatsService\<close>, whose constructors take a \<open>DatabaseService\<close>
  each; \<open>DatabaseService\<close>, whose constructor takes nothing.
\<close>

definition TestModule :: cls where "TestModule = Class 10 ''TestModule''"
definition DatabaseService :: cls where "DatabaseService = Class 11 ''DatabaseService''"
definition UsersService :: cls where "UsersService = Class 12 ''UsersService''"
definition CatsService :: cls where "CatsService = Class 13 ''CatsService''"
definition ReportService :: cls where "ReportService = Class 14 ''ReportService''"

definition report_app :: reflect where
  "report_app =
     \<lparr>rf_imports = (\<lambda>c. []),
      rf_providers = (\<lambda>c. if c = TestModule
                           then [ReportService, UsersService, CatsService, DatabaseService] else []),
      rf_controllers = (\<lambda>c. []),
      rf_exports = (\<lambda>c. []),
      rf_paramtypes = (\<lambda>c. if c = ReportService then [Some UsersService, Some CatsService]
                            else if c = UsersService then [Some DatabaseService]
                            else if c = CatsService then [Some DatabaseService] else [])\<rparr>"

text \<open>The objects of one class among the objects constructed.\<close>

fun inst_class :: "inst \<Rightarrow> cls" where
  "inst_class (Inst n c args) = c"

definition instances_of :: "cls \<Rightarrow> injection \<Rightarrow> inst list" where
  "instances_of c s = filter (\<lambda>obj. inst_class obj = c) (constructed s)"

section \<open>Properties of the pipes consumer\<close>

lemma applyPipes_loop_snoc:
  "applyPipes_loop (ps @ [p]) md v w =
     (case applyPipes_loop ps md v w of
        (Inl e, w') \<Rightarrow> (Inl e, w')
      | (Inr v', w') \<Rightarrow> transform p v' md (console_log (LogPipeExec (pipe_name p)) w'))"
proof (induction ps arbitrary: v w)
  case Nil
  show ?case by (simp split: prod.splits sum.splits)
next
  case (Cons q qs)
  show ?case by (simp add: Cons.IH split: prod.splits sum.splits)
qed

lemma applyPipes_snoc:
  "applyPipes v md (ps @ [p]) w =
     (case applyPipes v md ps w of
        (Inl e, w') \<Rightarrow> (Inl e, w')
      | (Inr v', w') \<Rightarrow> transform p v' md (console_log (LogPipeExec (pipe_name p)) w'))"
proof (cases "ps = []")
  case True
  then show ?thesis by (simp add: applyPipes_def split: prod.splits sum.splits)
next
  case False
  then show ?thesis using applyPipes_loop_snoc [of ps p md v w] by (simp add: applyPipes_def)
qed

lemma applyPipes_loop_pure:
  assumes "\<And>p v w. p \<in> set ps \<Longrightarrow> fst (transform p v md w) = Inr (f p md v)"
  shows "fst (applyPipes_loop ps md v w) = Inr (fold (\<lambda>p. f p md) ps v)"
  using assms
proof (induction ps arbitrary: v w)
  case Nil
  show ?case by simp
next
  case (Cons q qs)
  have h: "fst (transform q v md (console_log (LogPipeExec (pipe_name q)) w)) = Inr (f q md v)"
    using Cons.prems by simp
  obtain r w' where rw: "transform q v md (console_log (LogPipeExec (pipe_name q)) w) = (r, w')"
    by (cases "transform q v md (console_log (LogPipeExec (pipe_name q)) w)")
  with h have r: "r = Inr (f q md v)" by simp
  have "fst (applyPipes_loop qs md (f q md v) w') = Inr (fold (\<lambda>p. f p md) qs (f q md v))"
    using Cons.IH Cons.prems by simp
  then show ?case by (simp add: rw r)
qed

lemma applyPipes_pure:
  assumes "\<And>p v w. p \<in> set ps \<Longrightarrow> fst (transform p v md w) = Inr (f p md v)"
  shows "fst (applyPipes v md ps w) = Inr (fold (\<lambda>p. f p md) ps v)"
  using applyPipes_loop_pure [of ps md f v w] assms by (simp add: applyPipes_def)

lemma applyPipesToArgs_loop_pure:
  assumes "\<And>p v md w. p \<in> set pipes \<Longrightarrow> fst (transform p v md w) = Inr (f p md v)"
  shows "fst (applyPipesToArgs_loop ms args pipes targs w) =
     Inr (fold (\<lambda>m t. js_set t (rp_index m)
             (fold (\<lambda>p. f p (arg_metadata m)) pipes (js_get args (rp_index m)))) ms targs)"
proof (induction ms arbitrary: targs w)
  case Nil
  show ?case by simp
next
  case (Cons m ms)
  let ?md = "\<lparr>am_type = paramTypeToString (rp_type m), am_data = rp_data m\<rparr>"
  have h: "fst (applyPipes (js_get args (rp_index m)) ?md pipes w)
      = Inr (fold (\<lambda>p. f p ?md) pipes (js_get args (rp_index m)))"
    by (rule applyPipes_pure) (simp add: assms)
  obtain r w' where rw: "applyPipes (js_get args (rp_index m)) ?md pipes w = (r, w')"
    by (cases "applyPipes (js_get args (rp_index m)) ?md pipes w")
  with h have r: "r = Inr (fold (\<lambda>p. f p ?md) pipes (js_get args (rp_index m)))" by simp
  show ?case by (simp add: rw r Cons.IH arg_metadata_def)
qed


text \<open>
  C8 (transform chaining). An empty pipe list returns the value unchanged. A pipe list
  \<open>ps @ [p]\<close> first runs \<open>ps\<close> in declared order and hands the value they produce
  to \<open>p\<close>, whose result is the result of the chain (a pipe that throws ends the
  chain with its exception). For pipes that return normally, the chain computes the
  left-to-right fold of the transforms, and \<open>applyPipesToArgs\<close> stores that value at
  the argument's index of the list handed to the handler. The chain of the unit test
  turns \<open>"value"\<close> into \<open>"value-first"\<close> and then \<open>"value-first-second"\<close>.
\<close>

theorem applyPipes_chaining:
  "applyPipes v md [] w = (Inr v, w)
   \<and> applyPipesToArgs args [] ms w = (Inr args, w)
   \<and> applyPipes v md (ps @ [p]) w =
       (case applyPipes v md ps w of
          (Inl e, w') \<Rightarrow> (Inl e, w')
        | (Inr v', w') \<Rightarrow> transform p v' md (console_log (LogPipeExec (pipe_name p)) w'))
   \<and> ((\<forall>q \<in> set qs. \<forall>x m y. fst (transform q x m y) = Inr (f q m x)) \<longrightarrow> qs \<noteq> [] \<longrightarrow>
        fst (applyPipes v md qs w) = Inr (fold (\<lambda>q. f q md) qs v)
        \<and> fst (applyPipesToArgs args qs ms w) =
            Inr (fold (\<lambda>m t. js_set t (rp_index m)
                   (fold (\<lambda>q. f q (arg_metadata m)) qs (js_get args (rp_index m)))) ms args))
   \<and> fst (applyPipes (JStr ''value'') md [suffix_pipe ''-first''] w) = Inr (JStr ''value-first'')
   \<and> fst (applyPipes (JStr ''value'') md [suffix_pipe ''-first'', suffix_pipe ''-second''] w)
       = Inr (JStr ''value-first-second'')"
proof -
  have empty: "applyPipes v md [] w = (Inr v, w)"
    by (simp add: applyPipes_def)
  have empty_args: "applyPipesToArgs args [] ms w = (Inr args, w)"
    by (simp add: applyPipesToArgs_def)
  have pure: "fst (applyPipes v md qs w) = Inr (fold (\<lambda>q. f q md) qs v)
      \<and> fst (applyPipesToArgs args qs ms w) =
            Inr (fold (\<lambda>m t. js_set t (rp_index m)
                   (fold (\<lambda>q. f q (arg_metadata m)) qs (js_get args (rp_index m)))) ms args)"
    if h: "\<forall>q \<in> set qs. \<forall>x m y. fst (transform q x m y) = Inr (f q m x)" and ne: "qs \<noteq> []"
  proof
    show "fst (applyPipes v md qs w) = Inr (fold (\<lambda>q. f q md) qs v)"
      by (rule applyPipes_pure) (simp add: h)
    show "fst (applyPipesToArgs args qs ms w) =
            Inr (fold (\<lambda>m t. js_set t (rp_index m)
                   (fold (\<lambda>q. f q (arg_metadata m)) qs (js_get args (rp_index m)))) ms args)"
      using applyPipesToArgs_loop_pure [of qs f ms args args w] h ne
      by (simp add: applyPipesToArgs_def)
  qed
  have ex1: "fst (applyPipes (JStr ''value'') md [suffix_pipe ''-first''] w) = Inr (JStr ''value-first'')"
    by (simp add: applyPipes_def suffix_pipe_def)
  have ex2: "fst (applyPipes (JStr ''value'') md [suffix_pipe ''-first'', suffix_pipe ''-second''] w)
       = Inr (JStr ''value-first-second'')"
    by (simp add: applyPipes_def suffix_pipe_def)
  show ?thesis
    using empty empty_args applyPipes_snoc [of v md ps p w] pure ex1 ex2 by blast
qed

theorem applyPipes_chaining_witness:
  "[suffix_pipe ''-first'', suffix_pipe ''-second'' :: unit pipe] \<noteq> []
   \<and> fst (applyPipesToArgs [JStr ''value''] [suffix_pipe ''-first'', suffix_pipe ''-second'']
        [\<lparr>rp_index = 0, rp_data = Some ''id'', rp_type = PARAM\<rparr>]
        \<lparr>console = [], res = fresh_response, user = ()\<rparr>)
       = Inr [JStr ''value-first-second'']"
  using applyPipes_chaining [of Undefined "\<lparr>am_type = ''param'', am_data = Some ''id''\<rparr>"
      "\<lparr>console = [], res = fresh_response, user = ()\<rparr>" "[JStr ''value'']"
      "[\<lparr>rp_index = 0, rp_data = Some ''id'', rp_type = PARAM\<rparr>]" "[]" "suffix_pipe ''x''"
      "[suffix_pipe ''-first'', suffix_pipe ''-second'']"
      "\<lambda>q m x. projr (fst (transform q x m \<lparr>console = [], res = fresh_response, user = ()\<rparr>))"]
  by (simp add: suffix_pipe_def js_get_def js_set_def)

section \<open>Properties of the interceptors consumer\<close>

lemma intercept_Nil: "intercept [] ctx nxt = nxt"
  by (simp add: intercept_def)

lemma intercept_Cons:
  "intercept (i # is) ctx nxt = pipeline_step ctx i (intercept is ctx nxt)"
  by (simp add: intercept_def)

lemma intercept_append:
  "js \<noteq> [] \<Longrightarrow> intercept (is @ js) ctx nxt = foldr (pipeline_step ctx) is (intercept js ctx nxt)"
  by (simp add: intercept_def)

lemma user_console_log [simp]: "user (console_log l w) = user w"
  by (simp add: console_log_def)

lemma push_console_log: "push s (console_log l w) = console_log l (push s w)"
  by (simp add: console_log_def push_def)

lemma intercept_tracing:
  "\<exists>w'. intercept (map tracing_interceptor ns) ctx (tracing_handler r) w = (Inr r, w')
     \<and> user w' = user w @ map (\<lambda>n. n @ ''-before'') ns @ [''handler'']
                   @ rev (map (\<lambda>n. n @ ''-after'') ns)"
proof (induction ns arbitrary: w)
  case Nil
  show ?case by (simp add: intercept_Nil tracing_handler_def push_def)
next
  case (Cons n ns)
  let ?w1 = "push (n @ ''-before'') (console_log (LogInterceptorEnter n) w)"
  obtain w' where w': "intercept (map tracing_interceptor ns) ctx (tracing_handler r) ?w1 = (Inr r, w')"
    and u: "user w' = user ?w1 @ map (\<lambda>n. n @ ''-before'') ns @ [''handler'']
                   @ rev (map (\<lambda>n. n @ ''-after'') ns)"
    using Cons.IH [of "?w1"] by blast
  have step: "pipeline_step ctx (tracing_interceptor n) N w =
      (case N ?w1 of
         (Inl e, w') \<Rightarrow> (Inl e, w')
       | (Inr result, w') \<Rightarrow>
           (Inr result, console_log (LogInterceptorExit n) (push (n @ ''-after'') w')))" for N
    by (simp add: pipeline_step_def tracing_interceptor_def split: prod.splits sum.splits)
  have "intercept (map tracing_interceptor (n # ns)) ctx (tracing_handler r) w
      = (Inr r, console_log (LogInterceptorExit n) (push (n @ ''-after'') w'))"
    by (simp add: intercept_Cons step w')
  moreover have "user (console_log (LogInterceptorExit n) (push (n @ ''-after'') w'))
      = user w @ map (\<lambda>n. n @ ''-before'') (n # ns) @ [''handler'']
                   @ rev (map (\<lambda>n. n @ ''-after'') (n # ns))"
    by (simp add: u push_def)
  ultimately show ?case by blast
qed

lemma pipeline_step_skip:
  assumes "\<And>n. interceptor_intercept i ctx n = k"
  shows "pipeline_step ctx i nxt = pipeline_step ctx i nxt'"
  by (rule ext) (simp add: pipeline_step_def assms)

lemma intercept_skip:
  assumes "\<And>n. interceptor_intercept i ctx n = k"
  shows "intercept (is1 @ i # is2) ctx nxt = intercept (is1 @ [i]) ctx nxt'"
proof -
  have "intercept (i # is2) ctx nxt = intercept [i] ctx nxt'"
    unfolding intercept_Cons by (rule pipeline_step_skip [OF assms])
  then show ?thesis
    using intercept_append [of "i # is2" is1 ctx nxt] intercept_append [of "[i]" is1 ctx nxt']
    by simp
qed


text \<open>
  C4 (interceptor onion order). Without interceptors \<open>intercept\<close> is the handler
  itself. Otherwise the first interceptor is invoked first, and the program behind its
  \<open>next.handle()\<close> is \<open>intercept\<close> of the remaining interceptors around the same
  handler. For interceptors that record \<open>name-before\<close>, call \<open>next.handle()\<close> and
  record \<open>name-after\<close>, the recorded order is all the befores in list order, the
  handler, and all the afters in reverse order. An interceptor that never calls
  \<open>next.handle()\<close> makes the interceptors after it and the handler irrelevant (they do
  not run), and what it returns is what the chain it heads returns.
\<close>

theorem interceptor_onion_order:
  "intercept [] ctx nxt = nxt
   \<and> intercept (i # rest) ctx nxt w =
       (case interceptor_intercept i ctx (intercept rest ctx nxt)
               (console_log (LogInterceptorEnter (interceptor_name i)) w) of
          (Inl e, w') \<Rightarrow> (Inl e, w')
        | (Inr result, w') \<Rightarrow> (Inr result, console_log (LogInterceptorExit (interceptor_name i)) w'))
   \<and> (\<exists>w'. intercept (map tracing_interceptor ns) ctx (tracing_handler r) tw = (Inr r, w')
          \<and> user w' = user tw @ map (\<lambda>n. n @ ''-before'') ns @ [''handler'']
                          @ rev (map (\<lambda>n. n @ ''-after'') ns))
   \<and> (\<exists>w'. intercept [tracing_interceptor ''interceptor1'', tracing_interceptor ''interceptor2'']
               ctx (tracing_handler r) tw = (Inr r, w')
          \<and> user w' = user tw @ [''interceptor1-before'', ''interceptor2-before'', ''handler'',
                                  ''interceptor2-after'', ''interceptor1-after''])
   \<and> ((\<forall>n. interceptor_intercept s ctx n = k) \<longrightarrow>
        intercept (is1 @ s # is2) ctx nxt = intercept (is1 @ [s]) ctx nxt'
        \<and> intercept (s # is2) ctx nxt w =
            (case k (console_log (LogInterceptorEnter (interceptor_name s)) w) of
               (Inl e, w') \<Rightarrow> (Inl e, w')
             | (Inr result, w') \<Rightarrow>
                 (Inr result, console_log (LogInterceptorExit (interceptor_name s)) w')))"
proof -
  have c2: "intercept (i # rest) ctx nxt w =
       (case interceptor_intercept i ctx (intercept rest ctx nxt)
               (console_log (LogInterceptorEnter (interceptor_name i)) w) of
          (Inl e, w') \<Rightarrow> (Inl e, w')
        | (Inr result, w') \<Rightarrow> (Inr result, console_log (LogInterceptorExit (interceptor_name i)) w'))"
    by (simp add: intercept_Cons pipeline_step_def)
  have c4: "\<exists>w'. intercept [tracing_interceptor ''interceptor1'', tracing_interceptor ''interceptor2'']
               ctx (tracing_handler r) tw = (Inr r, w')
          \<and> user w' = user tw @ [''interceptor1-before'', ''interceptor2-before'', ''handler'',
                                  ''interceptor2-after'', ''interceptor1-after'']"
    using intercept_tracing [of "[''interceptor1'', ''interceptor2'']" ctx r tw] by simp
  have c5: "intercept (is1 @ s # is2) ctx nxt = intercept (is1 @ [s]) ctx nxt'
        \<and> intercept (s # is2) ctx nxt w =
            (case k (console_log (LogInterceptorEnter (interceptor_name s)) w) of
               (Inl e, w') \<Rightarrow> (Inl e, w')
             | (Inr result, w') \<Rightarrow>
                 (Inr result, console_log (LogInterceptorExit (interceptor_name s)) w'))"
    if h: "\<forall>n. interceptor_intercept s ctx n = k"
  proof
    show "intercept (is1 @ s # is2) ctx nxt = intercept (is1 @ [s]) ctx nxt'"
      by (rule intercept_skip) (simp add: h)
    show "intercept (s # is2) ctx nxt w =
            (case k (console_log (LogInterceptorEnter (interceptor_name s)) w) of
               (Inl e, w') \<Rightarrow> (Inl e, w')
             | (Inr result, w') \<Rightarrow>
                 (Inr result, console_log (LogInterceptorExit (interceptor_name s)) w'))"
      by (simp add: intercept_Cons pipeline_step_def h)
  qed
  show ?thesis
    using intercept_Nil [of ctx nxt] c2 intercept_tracing [of ns ctx r tw] c4 c5 by blast
qed

theorem interceptor_onion_order_witness:
  "intercept (cache_interceptor # [tracing_interceptor ''inner'']) ctx0
       (tracing_handler (JObj [(''cached'', JBool False)])) world0
     = (Inr (JObj [(''cached'', JBool True)]),
        world0\<lparr>console := [LogInterceptorEnter ''CacheInterceptor'', LogInterceptorExit ''CacheInterceptor'']\<rparr>)"
proof -
  have h: "\<forall>n. interceptor_intercept cache_interceptor ctx0 n
      = (\<lambda>w :: string list world. (Inr (JObj [(''cached'', JBool True)]) :: exception + jsval, w))"
    by (simp add: cache_interceptor_def)
  show ?thesis
    using interceptor_onion_order [where s = cache_interceptor and ctx = ctx0
      and ?is2.0 = "[tracing_interceptor ''inner'']" and w = world0
      and nxt = "tracing_handler (JObj [(''cached'', JBool False)])",
      THEN conjunct2, THEN conjunct2, THEN conjunct2, THEN conjunct2, THEN mp, OF h,
      THEN conjunct2]
    by (simp add: cache_interceptor_def console_log_def world0_def)
qed

section \<open>Properties of the exceptions handler\<close>

lemma handleDefault_fields:
  "statusCode (res (handleDefault e w)) = default_status e"
  "body (res (handleDefault e w)) = Some (default_body e)"
  "writableEnded (res (handleDefault e w))"
  "console (handleDefault e w) = console w @ [LogException (default_status e) (default_logged_message e)]"
  "user (handleDefault e w) = user w"
  by (simp_all add: handleDefault_def Let_def console_log_def end_json_def setHeader_def)

text \<open>
  C6 as stated fails: an \<open>Error\<close> that is not an \<open>HttpException\<close> and that no filter
  catches is answered with status 500 and a body that carries the error's own message,
  not the generic one.
\<close>

theorem handleDefault_leaks_error_message:
  "body (res (snd (handle \<lparr>filters = []\<rparr> (PlainError [] ''connect ECONNREFUSED db:5432'') req0
       \<lparr>console = [], res = fresh_response, user = ()\<rparr>)))
     = Some (JObj [(''statusCode'', JNum 500), (''message'', JStr ''connect ECONNREFUSED db:5432'')])
   \<and> body (res (snd (handle \<lparr>filters = []\<rparr> (PlainError [] ''connect ECONNREFUSED db:5432'') req0
       \<lparr>console = [], res = fresh_response, user = ()\<rparr>)))
     \<noteq> Some (JObj [(''statusCode'', JNum 500), (''message'', JStr ''Internal Server Error'')])"
  by (simp add: handle_def handleDefault_fields)

text \<open>
  C6, amended. When no filter matches, the default handler answers and ends the
  response: an \<open>HttpException\<close> with a string response gives its status and
  \<open>{statusCode, message}\<close>; with an object response its status and the object's
  properties after \<open>statusCode\<close>; any other \<open>Error\<close> gives 500 with the error's own
  message, which is logged and sent; a thrown value that is no \<open>Error\<close> gives 500 with
  the generic message \<open>Internal Server Error\<close>.
\<close>

theorem default_error_mapping:
  "findFilter (filters this) exception = None \<longrightarrow>
     (\<exists>w'. handle this exception req w = (Inr (), w')
        \<and> user w' = user w \<and> writableEnded (res w')
        \<and> (\<forall>subs message status. exception = HttpException subs (RespStr message) status \<longrightarrow>
               statusCode (res w') = status
               \<and> body (res w') = Some (JObj [(''statusCode'', JNum status), (''message'', JStr message)])
               \<and> console w' = console w @ [LogException status (JStr message)])
        \<and> (\<forall>subs props status. exception = HttpException subs (RespObj props) status \<longrightarrow>
               statusCode (res w') = status
               \<and> body (res w') = Some (JObj (obj_spread [(''statusCode'', JNum status)] props)))
        \<and> (\<forall>subs message. exception = PlainError subs message \<longrightarrow>
               statusCode (res w') = 500
               \<and> body (res w') = Some (JObj [(''statusCode'', JNum 500), (''message'', JStr message)])
               \<and> console w' = console w @ [LogException 500 (JStr message)])
        \<and> (\<forall>v. exception = ThrownValue v \<longrightarrow>
               statusCode (res w') = 500
               \<and> body (res w') = Some (JObj [(''statusCode'', JNum 500),
                                              (''message'', JStr ''Internal Server Error'')])
               \<and> console w' = console w @ [LogException 500 (JStr ''Internal Server Error'')]))"
  by (auto simp: handle_def handleDefault_fields default_message_def)

theorem default_error_mapping_witness:
  "findFilter (filters \<lparr>filters = []\<rparr>) (NotFoundException ''Cat not found'') = None
   \<and> statusCode (res (snd (handle \<lparr>filters = []\<rparr> (NotFoundException ''Cat not found'') req0
        \<lparr>console = [], res = fresh_response, user = ()\<rparr>))) = 404
   \<and> body (res (snd (handle \<lparr>filters = []\<rparr> (NotFoundException ''Cat not found'') req0
        \<lparr>console = [], res = fresh_response, user = ()\<rparr>)))
       = Some (JObj [(''statusCode'', JNum 404), (''message'', JStr ''Cat not found'')])"
  using default_error_mapping [of "\<lparr>filters = []\<rparr>" "NotFoundException ''Cat not found''" req0
      "\<lparr>console = [], res = fresh_response, user = ()\<rparr>"]
  by (auto simp: NotFoundException_def)

section \<open>Properties of the dispatcher\<close>

lemma routes_find_None:
  "routes_find rx method pathname rs = Inr None \<longleftrightarrow>
   (\<forall>route\<in>set rs. ri_method route \<noteq> method
       \<or> rx (''^'' @ routePattern (ri_path route) @ ''$'') pathname = Inr False)"
  by (induction rs) (auto split: sum.splits)

lemma routes_find_Some:
  "routes_find rx method pathname rs = Inr (Some route) \<Longrightarrow>
   route \<in> set rs \<and> ri_method route = method
   \<and> rx (''^'' @ routePattern (ri_path route) @ ''$'') pathname = Inr True"
  by (induction rs) (auto split: sum.splits if_splits)

text \<open>
  C5 (unmatched route). A request matches no registered route when every route has
  another method than the lower-cased method of the request or its regular expression,
  tested on the pathname, answers false; this is when \<open>findRoute\<close> returns no route.
  The dispatcher then returns at once: the console gets the three lines of the request
  banner and nothing of any stage, the response gets status 404, the JSON content type
  and the body \<open>{statusCode: 404, message: "Cannot METHOD path"}\<close>, and the
  application state is untouched; no route's request handler (guards, pipes,
  interceptors, handler, exception filters) takes part in the result. This holds for
  every route table and every regular-expression engine. (A route whose pattern makes
  the engine throw is neither a match nor a failed match: \<open>findRoute\<close> throws.)
\<close>

theorem unmatched_route_404:
  "(findRoute rx this method pathname = Inr None \<longleftrightarrow>
      (\<forall>route\<in>set (routes this). ri_method route \<noteq> method
          \<or> rx (''^'' @ routePattern (ri_path route) @ ''$'') pathname = Inr False))
   \<and> ((\<forall>route\<in>set (routes this).
          ri_method route
            \<noteq> toLowerCase (case req_method req of None \<Rightarrow> ''GET''
                            | Some m \<Rightarrow> if m = [] then ''GET'' else m)
          \<or> rx (''^'' @ routePattern (ri_path route) @ ''$'') (req_pathname req) = Inr False) \<longrightarrow>
       (let method = toLowerCase (case req_method req of None \<Rightarrow> ''GET''
                                  | Some m \<Rightarrow> if m = [] then ''GET'' else m);
            pathname = req_pathname req
        in createRequestHandler rx this req w =
           (Inr (),
            w\<lparr>console := console w @ [LogSeparator, LogRequest (toUpperCase method) pathname, LogSeparator],
              res := \<lparr>statusCode = 404,
                       headers = AList.update ''Content-Type'' ''application/json'' (headers (res w)),
                       body = Some (JObj [(''statusCode'', JNum 404),
                                (''message'', JStr (''Cannot '' @ toUpperCase method @ '' '' @ pathname))]),
                       writableEnded = True\<rparr>\<rparr>)))"
proof (intro conjI impI)
  show "findRoute rx this method pathname = Inr None \<longleftrightarrow>
      (\<forall>route\<in>set (routes this). ri_method route \<noteq> method
          \<or> rx (''^'' @ routePattern (ri_path route) @ ''$'') pathname = Inr False)"
    unfolding findRoute_def by (rule routes_find_None)
next
  let ?verb = "toLowerCase (case req_method req of None \<Rightarrow> ''GET''
                              | Some m \<Rightarrow> if m = [] then ''GET'' else m)"
  assume "\<forall>route\<in>set (routes this). ri_method route \<noteq> ?verb
     \<or> rx (''^'' @ routePattern (ri_path route) @ ''$'') (req_pathname req) = Inr False"
  then have "findRoute rx this ?verb (req_pathname req) = Inr None"
    unfolding findRoute_def by (simp only: routes_find_None)
  then show "let method = ?verb; pathname = req_pathname req
        in createRequestHandler rx this req w =
           (Inr (),
            w\<lparr>console := console w @ [LogSeparator, LogRequest (toUpperCase method) pathname, LogSeparator],
              res := \<lparr>statusCode = 404,
                       headers = AList.update ''Content-Type'' ''application/json'' (headers (res w)),
                       body = Some (JObj [(''statusCode'', JNum 404),
                                (''message'', JStr (''Cannot '' @ toUpperCase method @ '' '' @ pathname))]),
                       writableEnded = True\<rparr>\<rparr>)"
    by (simp add: createRequestHandler_def Let_def console_log_def end_json_def setHeader_def
        not_found_body_def)
qed

lemma cats_app_routes:
  "map (\<lambda>r. (ri_method r, ri_path r)) (routes cats_app)
     = [(''get'', ''/cats''), (''get'', ''/cats/:id''), (''post'', ''/cats'')]"
  by (simp add: cats_app_def explore_modules_def explore_def exploreController_def cats_controller_def
      new_RouterExplorer_def create_def Let_def normalizePath_def strip_slashes_def is_slash_def
      tracing_decl_def)

lemma cats_app_no_dogs:
  "\<forall>route\<in>set (routes cats_app). ri_method route \<noteq> ''get''
     \<or> path_RegExp (''^'' @ routePattern (ri_path route) @ ''$'') ''/dogs'' = Inr False"
proof -
  have "\<forall>p\<in>set (map (\<lambda>r. (ri_method r, ri_path r)) (routes cats_app)). fst p \<noteq> ''get''
     \<or> path_RegExp (''^'' @ routePattern (snd p) @ ''$'') ''/dogs'' = Inr False"
    unfolding cats_app_routes by code_simp
  then show ?thesis by simp
qed

theorem unmatched_route_404_witness:
  "findRoute path_RegExp cats_app ''get'' ''/dogs'' = Inr None
   \<and> createRequestHandler path_RegExp cats_app
        \<lparr>req_method = Some ''GET'', req_pathname = ''/dogs'', req_headers = []\<rparr> world0
     = (Inr (),
        \<lparr>console = [LogSeparator, LogRequest ''GET'' ''/dogs'', LogSeparator],
         res = \<lparr>statusCode = 404, headers = [(''Content-Type'', ''application/json'')],
                 body = Some (JObj [(''statusCode'', JNum 404),
                                    (''message'', JStr ''Cannot GET /dogs'')]),
                 writableEnded = True\<rparr>,
         user = []\<rparr>)"
proof -
  have lower: "toLowerCase ''GET'' = ''get''" by (simp add: toLowerCase_def)
  have upper: "toUpperCase ''get'' = ''GET''" by (simp add: toUpperCase_def)
  note t = unmatched_route_404 [of path_RegExp cats_app "''get''" "''/dogs''"
      "\<lparr>req_method = Some ''GET'', req_pathname = ''/dogs'', req_headers = []\<rparr>" world0]
  from t [THEN conjunct1] cats_app_no_dogs
  have a: "findRoute path_RegExp cats_app ''get'' ''/dogs'' = Inr None" by blast
  from t [THEN conjunct2] cats_app_no_dogs
  have "createRequestHandler path_RegExp cats_app
        \<lparr>req_method = Some ''GET'', req_pathname = ''/dogs'', req_headers = []\<rparr> world0
     = (Inr (),
        \<lparr>console = [LogSeparator, LogRequest ''GET'' ''/dogs'', LogSeparator],
         res = \<lparr>statusCode = 404, headers = [(''Content-Type'', ''application/json'')],
                 body = Some (JObj [(''statusCode'', JNum 404),
                                    (''message'', JStr ''Cannot GET /dogs'')]),
                 writableEnded = True\<rparr>,
         user = []\<rparr>)"
    by (simp add: lower upper world0_def fresh_response_def Let_def)
  with a show ?thesis by simp
qed

section \<open>Properties of the guards consumer and of the request closure\<close>

lemma tryActivate_Nil: "tryActivate [] ctx w = (Inr True, w)"
  by (simp add: tryActivate_def)

lemma tryActivate_Cons:
  "tryActivate (g # gs) ctx w =
     (case canActivate g ctx w of
        (Inl e, w') \<Rightarrow> (Inl e, w')
      | (Inr result, w') \<Rightarrow>
          if \<not> result
          then (Inl (ForbiddenException ''Forbidden resource''),
                console_log (LogGuardDenied (guard_name g)) w')
          else tryActivate gs ctx (console_log (LogGuardPassed (guard_name g)) w'))"
  by (cases gs) (simp_all add: tryActivate_def split: prod.splits sum.splits)

lemma tryActivate_append:
  "tryActivate (gs1 @ gs2) ctx w =
     (case tryActivate gs1 ctx w of
        (Inl e, w') \<Rightarrow> (Inl e, w')
      | (Inr b, w') \<Rightarrow> tryActivate gs2 ctx w')"
proof (induction gs1 arbitrary: w)
  case Nil
  show ?case by (simp add: tryActivate_Nil)
next
  case (Cons g gs1)
  show ?case
    by (simp add: tryActivate_Cons Cons.IH split: prod.splits sum.splits)
qed

lemma tryActivate_first_denial:
  assumes "tryActivate gs1 ctx w = (Inr b, w1)"
    and "canActivate g ctx w1 = (Inr False, w2)"
  shows "tryActivate (gs1 @ g # gs2) ctx w =
     (Inl (ForbiddenException ''Forbidden resource''), console_log (LogGuardDenied (guard_name g)) w2)"
  by (simp add: tryActivate_append assms tryActivate_Cons)

lemma tryActivate_result:
  "fst (tryActivate gs ctx w) \<noteq> Inr False"
proof (induction gs arbitrary: w)
  case Nil
  show ?case by (simp add: tryActivate_Nil)
next
  case (Cons g gs)
  show ?case
    by (simp add: tryActivate_Cons Cons.IH split: prod.splits sum.splits)
qed

lemma try_block_guard_abort:
  assumes "tryActivate guards (createExecutionContext req d) (console_log LogStepGuards w) = (Inl e, w')"
  shows "try_block guards pipes interceptors d resolveParams parseBody req w = (Inl e, w')"
  using assms by (simp add: try_block_def await_def createExecutionContext_def Let_def)

lemma closure_guard_abort:
  assumes "tryActivate guards (createExecutionContext req d) (console_log LogStepGuards w) = (Inl e, w')"
  shows "request_closure guards pipes interceptors d resolveParams parseBody this req w
     = handle (exceptionsHandler this) e req (console_log LogStepException w')"
  by (simp add: request_closure_def try_block_guard_abort [OF assms])

lemma try_block_guard_pass:
  assumes "tryActivate guards (createExecutionContext req d) (console_log LogStepGuards w) = (Inr b, w')"
  shows "try_block guards pipes interceptors d resolveParams parseBody req w
     = await (parseBody req) (\<lambda>body.
         await (resolveParams req body) (\<lambda>args.
         await (\<lambda>w. applyPipesToArgs args pipes (hd_argsMetadata d) (console_log LogStepPipes w))
           (\<lambda>args.
         await (\<lambda>w. intercept interceptors (createExecutionContext req d)
                  (\<lambda>w. hd_handler d args (console_log LogStepHandler w))
                  (console_log LogStepInterceptors w))
           (\<lambda>result w.
              if \<not> writableEnded (res w)
              then (Inr (), w\<lparr>res := end_json result
                                 (setHeader ''Content-Type'' ''application/json'' (res w))\<rparr>)
              else (Inr (), w))))) w'"
  using assms by (simp add: try_block_def await_def createExecutionContext_def Let_def)


text \<open>
  C3 (guard short-circuit). No guards allow. Guards are evaluated in list order, and the
  first one that answers false ends \<open>tryActivate\<close> with
  \<open>ForbiddenException('Forbidden resource')\<close>; the guards after it are not evaluated.
  The guards are the first stage of the request closure: when they end with an
  exception, the closure hands that exception to the exceptions handler in the world the
  guards left, whatever the body parser, the parameter resolver, the pipes, the
  interceptors and the handler are (none of them runs); with no filter for it the
  response is 403 with \<open>{statusCode: 403, message: 'Forbidden resource'}\<close>. When the
  guards allow, the closure goes on with the body parser in the world the guards left.
\<close>

theorem guard_short_circuit:
  "tryActivate [] ctx w = (Inr True, w)
   \<and> tryActivate (g # gs) ctx w =
       (case canActivate g ctx w of
          (Inl e, w') \<Rightarrow> (Inl e, w')
        | (Inr result, w') \<Rightarrow>
            if \<not> result
            then (Inl (ForbiddenException ''Forbidden resource''),
                  console_log (LogGuardDenied (guard_name g)) w')
            else tryActivate gs ctx (console_log (LogGuardPassed (guard_name g)) w'))
   \<and> (tryActivate gs1 ctx w = (Inr b, w1) \<and> canActivate g ctx w1 = (Inr False, w2) \<longrightarrow>
        tryActivate (gs1 @ g # gs2) ctx w =
          (Inl (ForbiddenException ''Forbidden resource''),
           console_log (LogGuardDenied (guard_name g)) w2))
   \<and> (tryActivate guards (createExecutionContext req d) (console_log LogStepGuards w0) = (Inl e, w') \<longrightarrow>
        request_closure guards pipes interceptors d resolveParams parseBody this req w0
          = handle (exceptionsHandler this) e req (console_log LogStepException w')
        \<and> (hd_controllerClass d' = hd_controllerClass d \<and> hd_methodName d' = hd_methodName d \<longrightarrow>
             request_closure guards pipes' interceptors' d' resolveParams' parseBody' this req w0
               = request_closure guards pipes interceptors d resolveParams parseBody this req w0)
        \<and> (e = ForbiddenException ''Forbidden resource''
             \<and> findFilter (filters (exceptionsHandler this)) e = None \<longrightarrow>
             (\<exists>w''. request_closure guards pipes interceptors d resolveParams parseBody this req w0
                       = (Inr (), w'')
                \<and> statusCode (res w'') = 403
                \<and> body (res w'') = Some (JObj [(''statusCode'', JNum 403),
                                               (''message'', JStr ''Forbidden resource'')])
                \<and> user w'' = user w')))
   \<and> (tryActivate guards (createExecutionContext req d) (console_log LogStepGuards w0) = (Inr b, w') \<longrightarrow>
        try_block guards pipes interceptors d resolveParams parseBody req w0
          = await (parseBody req) (\<lambda>body.
              await (resolveParams req body) (\<lambda>args.
              await (\<lambda>w. applyPipesToArgs args pipes (hd_argsMetadata d) (console_log LogStepPipes w))
                (\<lambda>args.
              await (\<lambda>w. intercept interceptors (createExecutionContext req d)
                       (\<lambda>w. hd_handler d args (console_log LogStepHandler w))
                       (console_log LogStepInterceptors w))
                (\<lambda>result w.
                   if \<not> writableEnded (res w)
                   then (Inr (), w\<lparr>res := end_json result
                                      (setHeader ''Content-Type'' ''application/json'' (res w))\<rparr>)
                   else (Inr (), w))))) w')"
proof -
  have abort: "request_closure guards pipes interceptors d resolveParams parseBody this req w0
          = handle (exceptionsHandler this) e req (console_log LogStepException w')
        \<and> (hd_controllerClass d' = hd_controllerClass d \<and> hd_methodName d' = hd_methodName d \<longrightarrow>
             request_closure guards pipes' interceptors' d' resolveParams' parseBody' this req w0
               = request_closure guards pipes interceptors d resolveParams parseBody this req w0)
        \<and> (e = ForbiddenException ''Forbidden resource''
             \<and> findFilter (filters (exceptionsHandler this)) e = None \<longrightarrow>
             (\<exists>w''. request_closure guards pipes interceptors d resolveParams parseBody this req w0
                       = (Inr (), w'')
                \<and> statusCode (res w'') = 403
                \<and> body (res w'') = Some (JObj [(''statusCode'', JNum 403),
                                               (''message'', JStr ''Forbidden resource'')])
                \<and> user w'' = user w'))"
    if h: "tryActivate guards (createExecutionContext req d) (console_log LogStepGuards w0) = (Inl e, w')"
  proof (intro conjI impI)
    show eq: "request_closure guards pipes interceptors d resolveParams parseBody this req w0
          = handle (exceptionsHandler this) e req (console_log LogStepException w')"
      by (rule closure_guard_abort [OF h])
    show "request_closure guards pipes' interceptors' d' resolveParams' parseBody' this req w0
               = request_closure guards pipes interceptors d resolveParams parseBody this req w0"
      if same: "hd_controllerClass d' = hd_controllerClass d \<and> hd_methodName d' = hd_methodName d"
    proof -
      have "createExecutionContext req d' = createExecutionContext req d"
        using same by (simp add: createExecutionContext_def)
      with h have "tryActivate guards (createExecutionContext req d') (console_log LogStepGuards w0) = (Inl e, w')"
        by simp
      from closure_guard_abort [OF this] eq show ?thesis by simp
    qed
    show "\<exists>w''. request_closure guards pipes interceptors d resolveParams parseBody this req w0
                       = (Inr (), w'')
                \<and> statusCode (res w'') = 403
                \<and> body (res w'') = Some (JObj [(''statusCode'', JNum 403),
                                               (''message'', JStr ''Forbidden resource'')])
                \<and> user w'' = user w'"
      if "e = ForbiddenException ''Forbidden resource''
             \<and> findFilter (filters (exceptionsHandler this)) e = None"
    proof -
      from that have e: "e = ForbiddenException ''Forbidden resource''"
        and nf: "findFilter (filters (exceptionsHandler this)) e = None" by blast+
      show ?thesis
        unfolding eq by (simp add: handle_def nf) (simp add: e handleDefault_fields ForbiddenException_def)
    qed
  qed
  show ?thesis
    using tryActivate_Nil [of ctx w] tryActivate_Cons [of g gs ctx w]
      tryActivate_first_denial [of gs1 ctx w b w1 g w2 gs2] abort
      try_block_guard_pass [of guards req d w0 b w' pipes interceptors resolveParams parseBody]
    by blast
qed

theorem guard_short_circuit_witness:
  "fst (create \<lparr>exceptionsHandler = \<lparr>filters = []\<rparr>\<rparr> (tracing_decl ''create'' False)
          (createParamsResolver tracing_platform ''CatsController'' ''create'' ''/cats'')
          (createBodyParser tracing_platform))
       \<lparr>exceptionsHandler = \<lparr>filters = []\<rparr>\<rparr>
       \<lparr>req_method = Some ''POST'', req_pathname = ''/cats'', req_headers = []\<rparr> world0
     = (Inr (),
        \<lparr>console = [LogStepGuards, LogGuardDenied ''guard'', LogStepException,
                    LogException 403 (JStr ''Forbidden resource'')],
         res = \<lparr>statusCode = 403, headers = [(''Content-Type'', ''application/json'')],
                 body = Some (JObj [(''statusCode'', JNum 403),
                                    (''message'', JStr ''Forbidden resource'')]),
                 writableEnded = True\<rparr>,
         user = [''guard'']\<rparr>)"
proof -
  let ?req = "\<lparr>req_method = Some ''POST'', req_pathname = ''/cats'', req_headers = []\<rparr>"
  let ?d = "tracing_decl ''create'' False"
  have h: "tryActivate (reflectGuards ?d) (createExecutionContext ?req ?d)
             (console_log LogStepGuards world0)
      = (Inl (ForbiddenException ''Forbidden resource''),
         console_log (LogGuardDenied ''guard'') (push ''guard'' (console_log LogStepGuards world0)))"
    by (simp add: tryActivate_def reflectGuards_def tracing_decl_def tracing_guard_def)
  note t = guard_short_circuit [where guards = "reflectGuards ?d" and req = ?req and d = ?d
      and ?w0.0 = world0 and this = "\<lparr>exceptionsHandler = \<lparr>filters = []\<rparr>\<rparr>"
      and pipes = "reflectPipes ?d" and interceptors = "reflectInterceptors ?d"
      and resolveParams = "createParamsResolver tracing_platform ''CatsController'' ''create'' ''/cats''"
      and parseBody = "createBodyParser tracing_platform",
      THEN conjunct2, THEN conjunct2, THEN conjunct2, THEN conjunct1, THEN mp, OF h, THEN conjunct1]
  have "fst (create \<lparr>exceptionsHandler = \<lparr>filters = []\<rparr>\<rparr> ?d
          (createParamsResolver tracing_platform ''CatsController'' ''create'' ''/cats'')
          (createBodyParser tracing_platform))
       \<lparr>exceptionsHandler = \<lparr>filters = []\<rparr>\<rparr> ?req world0
     = request_closure (reflectGuards ?d) (reflectPipes ?d) (reflectInterceptors ?d) ?d
          (createParamsResolver tracing_platform ''CatsController'' ''create'' ''/cats'')
          (createBodyParser tracing_platform)
          \<lparr>exceptionsHandler = \<lparr>filters = []\<rparr>\<rparr> ?req world0"
    by (simp add: create_def Let_def)
  also note t
  finally show ?thesis
    by (simp add: handle_def handleDefault_def ForbiddenException_def Let_def
        console_log_def push_def world0_def fresh_response_def end_json_def setHeader_def)
qed

section \<open>Properties of route extraction\<close>













section \<open>Properties of the scanner\<close>

lemma scanForModules_Suc_step:
  assumes "\<And>xs scope st r. scanImports n R xs scope st = Some r \<Longrightarrow> scanImports (Suc n) R xs scope st = Some r"
    and "scanForModules (Suc n) R m scope st = Some r"
  shows "scanForModules (Suc (Suc n)) R m scope st = Some r"
proof -
  obtain reg c where st: "st = (reg, c)" by (cases st)
  show ?thesis
    using assms(2) unfolding st
    by (auto split: if_splits intro: assms(1))
qed

lemma scanImports_Suc_step:
  assumes "\<And>m scope st r. scanForModules n R m scope st = Some r \<Longrightarrow> scanForModules (Suc n) R m scope st = Some r"
    and "scanImports n R xs scope st = Some r"
  shows "scanImports (Suc n) R xs scope st = Some r"
  using assms(2)
proof (induction xs arbitrary: st)
  case Nil
  then show ?case by simp
next
  case (Cons x xs)
  from Cons.prems obtain st' where a: "scanForModules n R x scope st = Some st'"
    and b: "scanImports n R xs scope st' = Some r"
    by (auto split: option.splits)
  from assms(1) [OF a] Cons.IH [OF b] show ?case by simp
qed

lemma scan_fuel_Suc:
  "(scanForModules n R m scope st = Some r \<longrightarrow> scanForModules (Suc n) R m scope st = Some r)
   \<and> (scanImports n R xs scope st = Some r \<longrightarrow> scanImports (Suc n) R xs scope st = Some r)"
proof (induction n arbitrary: m scope st r xs)
  case 0
  have "scanImports 0 R xs scope st = Some r \<Longrightarrow> scanImports (Suc 0) R xs scope st = Some r"
    by (rule scanImports_Suc_step) simp_all
  then show ?case by simp
next
  case (Suc n)
  have a: "scanForModules (Suc n) R m scope st = Some r \<Longrightarrow> scanForModules (Suc (Suc n)) R m scope st = Some r"
    for m scope st r
    by (rule scanForModules_Suc_step) (use Suc.IH in blast)+
  have "scanImports (Suc n) R xs scope st = Some r \<Longrightarrow> scanImports (Suc (Suc n)) R xs scope st = Some r"
    by (rule scanImports_Suc_step) (use a in blast)+
  with a show ?case by blast
qed

lemma scanForModules_fuel_add:
  "scanForModules n R m scope st = Some r \<Longrightarrow> scanForModules (n + k) R m scope st = Some r"
  by (induction k) (use scan_fuel_Suc in auto)

lemma scanForModules_fuel_mono:
  "scanForModules n R m scope st = Some r \<Longrightarrow> n \<le> n' \<Longrightarrow> scanForModules n' R m scope st = Some r"
  using scanForModules_fuel_add [of n R m scope st r "n' - n"] by simp


lemma update_absent: "k \<notin> fst ` set xs \<Longrightarrow> AList.update k v xs = xs @ [(k, v)]"
  by (induction xs) auto

lemma map_of_None_iff: "map_of xs k = None \<longleftrightarrow> k \<notin> fst ` set xs"
  by (simp add: map_of_eq_None_iff)

lemma addModule_present:
  "class_name m \<in> fst ` set (modules c) \<Longrightarrow> addModule m scope c = c"
  by (simp add: addModule_def Let_def map_of_None_iff)

lemma addModule_absent:
  "class_name m \<notin> fst ` set (modules c) \<Longrightarrow>
   modules (addModule m scope c) =
     modules c @ [(class_name m, (new_Module m (class_name m))\<lparr>m_distance := length scope\<rparr>)]"
  by (simp add: addModule_def Let_def map_of_None_iff update_absent)

lemma import_chain_snoc:
  "import_chain R (p @ [x]) \<Longrightarrow> y \<in> set (rf_imports R x) \<Longrightarrow> import_chain R ((p @ [x]) @ [y])"
proof (induction p)
  case Nil
  then show ?case by simp
next
  case (Cons a p)
  then show ?case by (cases p) auto
qed

lemma chain_from_snoc:
  "chain_from R root (p @ [x]) \<Longrightarrow> y \<in> set (rf_imports R x) \<Longrightarrow> chain_from R root ((p @ [x]) @ [y])"
  unfolding chain_from_def using import_chain_snoc [of R p x y] by (cases p) auto

lemma import_chain_reach: "import_chain R (a # p) \<Longrightarrow> (a, last (a # p)) \<in> (import_edge R)\<^sup>*"
proof (induction p arbitrary: a)
  case Nil
  then show ?case by simp
next
  case (Cons b p)
  then have "(a, b) \<in> import_edge R" and "(b, last (b # p)) \<in> (import_edge R)\<^sup>*"
    by (auto simp: import_edge_def)
  then show ?case by (simp add: converse_rtrancl_into_rtrancl)
qed

lemma chain_from_reach: "chain_from R root path \<Longrightarrow> last path \<in> reach R root"
  unfolding chain_from_def reach_def
  using import_chain_reach [of R "hd path" "tl path"] by (cases path) auto

lemma addModule_inv:
  assumes inv: "scan_inv R root (reg, c)" and new: "m \<notin> set reg"
    and ch: "chain_from R root (scope @ [m])"
  shows "scan_inv R root (reg @ [m], addModule m scope c)
     \<and> (\<exists>ys. modules (addModule m scope c) = modules c @ ys)"
proof -
  have mU: "m \<in> reach R root" using chain_from_reach [OF ch] by simp
  from inv have regU: "set reg \<subseteq> reach R root" and dreg: "distinct reg"
    and toks: "set (map fst (modules c)) = class_name ` set reg"
    and dtok: "distinct (map fst (modules c))"
    and ents: "\<forall>e \<in> set (modules c). entry_ok R root e \<and> m_metatype (snd e) \<in> set reg"
    and inj: "inj_on class_name (reach R root) \<longrightarrow> map (\<lambda>e. m_metatype (snd e)) (modules c) = reg"
    by (simp_all add: scan_inv_def)
  show ?thesis
  proof (cases "class_name m \<in> fst ` set (modules c)")
    case True
    then have same: "addModule m scope c = c" by (rule addModule_present)
    from True toks obtain m' where m': "m' \<in> set reg" "class_name m' = class_name m" by auto
    have ninj: "\<not> inj_on class_name (reach R root)"
    proof
      assume "inj_on class_name (reach R root)"
      with m' mU regU have "m' = m" by (auto dest: inj_onD)
      with m' new show False by simp
    qed
    have "scan_inv R root (reg @ [m], c)"
      using regU mU dreg new toks dtok ents ninj True
      by (auto simp: scan_inv_def)
    with same show ?thesis by simp
  next
    case False
    let ?e = "(class_name m, (new_Module m (class_name m))\<lparr>m_distance := length scope\<rparr>)"
    have mods: "modules (addModule m scope c) = modules c @ [?e]"
      by (rule addModule_absent [OF False])
    have eok: "entry_ok R root ?e"
      unfolding entry_ok_def using ch by (auto simp: new_Module_def intro!: exI [of _ "scope @ [m]"])
    have "scan_inv R root (reg @ [m], addModule m scope c)"
      unfolding scan_inv_def prod.case
    proof (intro conjI)
      show "set (reg @ [m]) \<subseteq> reach R root" using regU mU by simp
      show "distinct (reg @ [m])" using dreg new by simp
      show "set (map fst (modules (addModule m scope c))) = class_name ` set (reg @ [m])"
        using toks by (simp add: mods)
      show "distinct (map fst (modules (addModule m scope c)))"
        using dtok False by (simp add: mods)
      show "\<forall>e \<in> set (modules (addModule m scope c)).
              entry_ok R root e \<and> m_metatype (snd e) \<in> set (reg @ [m])"
        using ents eok by (auto simp: mods new_Module_def)
      show "inj_on class_name (reach R root) \<longrightarrow>
              map (\<lambda>e. m_metatype (snd e)) (modules (addModule m scope c)) = reg @ [m]"
        using inj by (simp add: mods new_Module_def)
    qed
    with mods show ?thesis by simp
  qed
qed


lemma scan_step_ok_refl: "scan_inv R root st \<Longrightarrow> need \<subseteq> set (fst st) \<Longrightarrow> scan_step_ok R root need st st"
  by (simp add: scan_step_ok_def)

lemma scan_step_ok_trans:
  assumes "scan_step_ok R root need1 st st1" and "scan_step_ok R root need2 st1 st2"
  shows "scan_step_ok R root (need1 \<union> need2) st st2"
proof -
  from assms have i: "scan_inv R root st2"
    and s1: "set (fst st) \<subseteq> set (fst st1)" and s2: "set (fst st1) \<subseteq> set (fst st2)"
    and n1: "need1 \<subseteq> set (fst st1)" and n2: "need2 \<subseteq> set (fst st2)"
    and c1: "\<forall>x \<in> set (fst st1) - set (fst st). set (rf_imports R x) \<subseteq> set (fst st1)"
    and c2: "\<forall>x \<in> set (fst st2) - set (fst st1). set (rf_imports R x) \<subseteq> set (fst st2)"
    and p1: "\<exists>ys. modules (snd st1) = modules (snd st) @ ys"
    and p2: "\<exists>ys. modules (snd st2) = modules (snd st1) @ ys"
    by (simp_all add: scan_step_ok_def)
  have c: "\<forall>x \<in> set (fst st2) - set (fst st). set (rf_imports R x) \<subseteq> set (fst st2)"
  proof
    fix x assume "x \<in> set (fst st2) - set (fst st)"
    then have "x \<in> set (fst st2) - set (fst st1) \<or> x \<in> set (fst st1) - set (fst st)" by auto
    with c1 c2 s2 show "set (rf_imports R x) \<subseteq> set (fst st2)" by blast
  qed
  from p1 p2 have p: "\<exists>ys. modules (snd st2) = modules (snd st) @ ys" by auto
  show ?thesis
    unfolding scan_step_ok_def using i s1 s2 n1 n2 c p by auto
qed

lemma scanImports_correct:
  assumes step: "\<And>m scope st st'. scanForModules n R m scope st = Some st' \<Longrightarrow> scan_inv R root st \<Longrightarrow>
      chain_from R root (scope @ [m]) \<Longrightarrow> scan_step_ok R root {m} st st'"
  shows "scanImports n R xs scope st = Some st' \<Longrightarrow> scan_inv R root st \<Longrightarrow>
      (\<forall>x \<in> set xs. chain_from R root (scope @ [x])) \<Longrightarrow> scan_step_ok R root (set xs) st st'"
proof (induction xs arbitrary: st)
  case Nil
  then show ?case by (simp add: scan_step_ok_refl)
next
  case (Cons x xs)
  from Cons.prems(1) obtain st1 where a: "scanForModules n R x scope st = Some st1"
    and b: "scanImports n R xs scope st1 = Some st'"
    by (auto split: option.splits)
  from step [OF a Cons.prems(2)] Cons.prems(3) have s1: "scan_step_ok R root {x} st st1" by simp
  then have inv1: "scan_inv R root st1" by (simp add: scan_step_ok_def)
  from Cons.IH [OF b inv1] Cons.prems(3) have s2: "scan_step_ok R root (set xs) st1 st'" by simp
  from scan_step_ok_trans [OF s1 s2] show ?case by simp
qed

lemma scanForModules_correct:
  "scanForModules n R m scope st = Some st' \<Longrightarrow> scan_inv R root st \<Longrightarrow>
   chain_from R root (scope @ [m]) \<Longrightarrow> scan_step_ok R root {m} st st'"
proof (induction n arbitrary: m scope st st')
  case 0
  then show ?case by simp
next
  case (Suc n)
  obtain reg c where st: "st = (reg, c)" by (cases st)
  show ?case
  proof (cases "m \<in> set reg")
    case True
    with Suc.prems(1) have "st' = st" unfolding st by simp
    with Suc.prems(2) True show ?thesis by (simp add: scan_step_ok_refl st)
  next
    case False
    let ?st1 = "(reg @ [m], addModule m scope c)"
    from False Suc.prems(1)
    have loop: "scanImports n R (rf_imports R m) (scope @ [m]) ?st1 = Some st'"
      unfolding st by simp
    from addModule_inv [OF Suc.prems(2) [unfolded st] False Suc.prems(3)]
    have inv1: "scan_inv R root ?st1"
      and pre: "\<exists>ys. modules (addModule m scope c) = modules c @ ys" by simp_all
    have chains: "\<forall>x \<in> set (rf_imports R m). chain_from R root ((scope @ [m]) @ [x])"
      using chain_from_snoc [OF Suc.prems(3)] by blast
    have "scan_step_ok R root (set (rf_imports R m)) ?st1 st'"
      by (rule scanImports_correct [OF _ loop inv1 chains]) (rule Suc.IH)
    then have i: "scan_inv R root st'" and sub: "set (reg @ [m]) \<subseteq> set (fst st')"
      and need: "set (rf_imports R m) \<subseteq> set (fst st')"
      and cl: "\<forall>x \<in> set (fst st') - set (reg @ [m]). set (rf_imports R x) \<subseteq> set (fst st')"
      and pre2: "\<exists>ys. modules (snd st') = modules (addModule m scope c) @ ys"
      by (simp_all add: scan_step_ok_def)
    have cl': "\<forall>x \<in> set (fst st') - set reg. set (rf_imports R x) \<subseteq> set (fst st')"
    proof
      fix x assume "x \<in> set (fst st') - set reg"
      then have "x = m \<or> x \<in> set (fst st') - set (reg @ [m])" by auto
      with need cl show "set (rf_imports R x) \<subseteq> set (fst st')" by blast
    qed
    from pre pre2 have pre3: "\<exists>ys. modules (snd st') = modules c @ ys" by auto
    show ?thesis
      unfolding scan_step_ok_def st using i sub cl' pre3 by simp
  qed
qed


lemma addModule_prefix: "\<exists>ys. modules (addModule m scope c) = modules c @ ys"
  by (cases "class_name m \<in> fst ` set (modules c)") (simp_all add: addModule_present addModule_absent)

lemma scanImports_prefix:
  assumes step: "\<And>m scope st st'. scanForModules n R m scope st = Some st' \<Longrightarrow>
      \<exists>ys. modules (snd st') = modules (snd st) @ ys"
  shows "scanImports n R xs scope st = Some st' \<Longrightarrow> \<exists>ys. modules (snd st') = modules (snd st) @ ys"
proof (induction xs arbitrary: st)
  case Nil
  then show ?case by simp
next
  case (Cons x xs)
  from Cons.prems obtain st1 where a: "scanForModules n R x scope st = Some st1"
    and b: "scanImports n R xs scope st1 = Some st'"
    by (auto split: option.splits)
  from step [OF a] Cons.IH [OF b] show ?case by auto
qed

lemma scanForModules_prefix:
  "scanForModules n R m scope st = Some st' \<Longrightarrow> \<exists>ys. modules (snd st') = modules (snd st) @ ys"
proof (induction n arbitrary: m scope st st')
  case 0
  then show ?case by simp
next
  case (Suc n)
  obtain reg c where st: "st = (reg, c)" by (cases st)
  show ?case
  proof (cases "m \<in> set reg")
    case True
    with Suc.prems show ?thesis unfolding st by auto
  next
    case False
    with Suc.prems
    have loop: "scanImports n R (rf_imports R m) (scope @ [m]) (reg @ [m], addModule m scope c) = Some st'"
      unfolding st by simp
    have "\<exists>ys. modules (snd st') = modules (snd (reg @ [m], addModule m scope c)) @ ys"
      by (rule scanImports_prefix [OF _ loop]) (rule Suc.IH)
    with addModule_prefix [of m scope c] show ?thesis unfolding st by auto
  qed
qed

lemma scanForModules_first_visit:
  assumes run: "scanForModules n R m scope (reg, c) = Some (reg', c')"
  shows "(\<forall>token. token \<in> fst ` set (modules c) \<longrightarrow> map_of (modules c') token = map_of (modules c) token)
     \<and> (m \<notin> set reg \<and> class_name m \<notin> fst ` set (modules c) \<longrightarrow>
          map_of (modules c') (class_name m)
            = Some ((new_Module m (class_name m))\<lparr>m_distance := length scope\<rparr>))"
proof (intro conjI allI impI)
  fix token assume "token \<in> fst ` set (modules c)"
  moreover from scanForModules_prefix [OF run] obtain ys where "modules c' = modules c @ ys" by auto
  ultimately show "map_of (modules c') token = map_of (modules c) token"
    by (auto simp: map_add_dom_app_simps dom_map_of_conv_image_fst)
next
  assume h: "m \<notin> set reg \<and> class_name m \<notin> fst ` set (modules c)"
  obtain k where n: "n = Suc k" using run by (cases n) auto
  from run h have loop: "scanImports k R (rf_imports R m) (scope @ [m]) (reg @ [m], addModule m scope c) = Some (reg', c')"
    unfolding n by simp
  have "\<exists>ys. modules (snd (reg', c')) = modules (snd (reg @ [m], addModule m scope c)) @ ys"
    by (rule scanImports_prefix [OF _ loop]) (rule scanForModules_prefix)
  then obtain ys where "modules c' = modules (addModule m scope c) @ ys" by auto
  with addModule_absent [of m c scope] h
  have "modules c' = modules c @ [(class_name m, (new_Module m (class_name m))\<lparr>m_distance := length scope\<rparr>)] @ ys"
    by simp
  with h show "map_of (modules c') (class_name m)
            = Some ((new_Module m (class_name m))\<lparr>m_distance := length scope\<rparr>)"
    by (simp add: map_add_Some_iff map_of_eq_None_iff)
qed

lemma scanImports_total:
  assumes fin: "finite U"
    and step: "\<And>m scope st. m \<in> U \<Longrightarrow> set (fst st) \<subseteq> U \<Longrightarrow> card (U - set (fst st)) < n \<Longrightarrow>
      \<exists>st'. scanForModules n R m scope st = Some st' \<and> set (fst st) \<subseteq> set (fst st') \<and> set (fst st') \<subseteq> U"
  shows "set xs \<subseteq> U \<Longrightarrow> set (fst st) \<subseteq> U \<Longrightarrow> card (U - set (fst st)) < n \<Longrightarrow>
      \<exists>st'. scanImports n R xs scope st = Some st' \<and> set (fst st) \<subseteq> set (fst st') \<and> set (fst st') \<subseteq> U"
proof (induction xs arbitrary: st)
  case Nil
  then show ?case by simp
next
  case (Cons x xs)
  from step [of x st scope] Cons.prems
  obtain st1 where a: "scanForModules n R x scope st = Some st1"
    and s1: "set (fst st) \<subseteq> set (fst st1)" and u1: "set (fst st1) \<subseteq> U" by auto
  have "card (U - set (fst st1)) \<le> card (U - set (fst st))"
    using fin s1 by (intro card_mono) auto
  with Cons.prems have c1: "card (U - set (fst st1)) < n" by simp
  from Cons.IH [OF _ u1 c1] Cons.prems
  obtain st' where "scanImports n R xs scope st1 = Some st'"
    and "set (fst st1) \<subseteq> set (fst st')" and "set (fst st') \<subseteq> U" by auto
  with a s1 show ?case by auto
qed

lemma scanForModules_total:
  assumes fin: "finite U" and closed: "\<And>x. x \<in> U \<Longrightarrow> set (rf_imports R x) \<subseteq> U"
  shows "m \<in> U \<Longrightarrow> set (fst st) \<subseteq> U \<Longrightarrow> card (U - set (fst st)) < n \<Longrightarrow>
      \<exists>st'. scanForModules n R m scope st = Some st' \<and> set (fst st) \<subseteq> set (fst st') \<and> set (fst st') \<subseteq> U"
proof (induction n arbitrary: m scope st)
  case 0
  then show ?case by simp
next
  case (Suc n)
  obtain reg c where st: "st = (reg, c)" by (cases st)
  show ?case
  proof (cases "m \<in> set reg")
    case True
    with Suc.prems show ?thesis unfolding st by simp
  next
    case False
    let ?st1 = "(reg @ [m], addModule m scope c)"
    have u1: "set (fst ?st1) \<subseteq> U" using Suc.prems unfolding st by simp
    have "U - set (reg @ [m]) = (U - set reg) - {m}" by auto
    moreover have "m \<in> U - set reg" using False Suc.prems by simp
    moreover have "finite (U - set reg)" using fin by simp
    ultimately have "card (U - set (reg @ [m])) = card (U - set reg) - 1" and "card (U - set reg) > 0"
      by (simp_all add: card_gt_0_iff) blast
    with Suc.prems(3) have c1: "card (U - set (fst ?st1)) < n" unfolding st by simp
    have "\<exists>st'. scanImports n R (rf_imports R m) (scope @ [m]) ?st1 = Some st'
        \<and> set (fst ?st1) \<subseteq> set (fst st') \<and> set (fst st') \<subseteq> U"
      by (rule scanImports_total [OF fin Suc.IH _ u1 c1]) (use closed Suc.prems in auto)
    with False show ?thesis unfolding st by auto
  qed
qed


lemma reach_closed: "x \<in> reach R root \<Longrightarrow> set (rf_imports R x) \<subseteq> reach R root"
  unfolding reach_def import_edge_def by (auto intro: rtrancl_into_rtrancl)

lemma reach_subset:
  assumes "root \<in> S" and "\<And>x. x \<in> S \<Longrightarrow> set (rf_imports R x) \<subseteq> S"
  shows "reach R root \<subseteq> S"
proof
  fix m assume "m \<in> reach R root"
  then have "(root, m) \<in> (import_edge R)\<^sup>*" by (simp add: reach_def)
  then show "m \<in> S"
  proof (induction rule: rtrancl_induct)
    case base
    show ?case by (rule assms(1))
  next
    case (step y z)
    then show ?case using assms(2) [of y] by (auto simp: import_edge_def)
  qed
qed

lemma scan_inv_init: "scan_inv R root ([], new_NestContainer)"
  by (simp add: scan_inv_def new_NestContainer_def)

lemma scan_result:
  assumes fin: "finite (reach R root)"
  shows "\<exists>registry container.
       (\<forall>fuel > card (reach R root).
          scanForModules fuel R root [] ([], new_NestContainer) = Some (registry, container))
       \<and> scan_inv R root (registry, container) \<and> set registry = reach R root"
proof -
  let ?U = "reach R root"
  have rootU: "root \<in> ?U" by (simp add: reach_def)
  have "\<exists>st'. scanForModules (Suc (card ?U)) R root [] ([], new_NestContainer) = Some st'
      \<and> set (fst ([], new_NestContainer)) \<subseteq> set (fst st') \<and> set (fst st') \<subseteq> ?U"
    by (rule scanForModules_total [OF fin reach_closed rootU]) (use fin in \<open>simp_all add: card_Diff_subset\<close>)
  then obtain reg c where run: "scanForModules (Suc (card ?U)) R root [] ([], new_NestContainer) = Some (reg, c)"
    by auto
  have ok: "scan_step_ok R root {root} ([], new_NestContainer) (reg, c)"
    by (rule scanForModules_correct [OF run scan_inv_init]) (simp add: chain_from_def)
  then have inv: "scan_inv R root (reg, c)" and rootin: "root \<in> set reg"
    and cl: "\<forall>x \<in> set reg. set (rf_imports R x) \<subseteq> set reg"
    by (simp_all add: scan_step_ok_def)
  from inv have "set reg \<subseteq> ?U" by (simp add: scan_inv_def)
  moreover have "?U \<subseteq> set reg" by (rule reach_subset) (use rootin cl in auto)
  ultimately have eq: "set reg = ?U" by auto
  have "\<forall>fuel > card ?U. scanForModules fuel R root [] ([], new_NestContainer) = Some (reg, c)"
    using scanForModules_fuel_mono [OF run] by (auto simp: Suc_le_eq)
  with inv eq show ?thesis by blast
qed

lemma by_token_snoc:
  "by_token (visits @ [v]) =
     (if class_name (fst v) \<in> (\<lambda>k. class_name (fst k)) ` set (by_token visits) then by_token visits
      else by_token visits @ [v])"
  by (simp add: by_token_def)

lemma by_token_names:
  "(\<lambda>k. class_name (fst k)) ` set (by_token visits) = (\<lambda>k. class_name (fst k)) ` set visits"
  by (induction visits rule: rev_induct) (auto simp: by_token_snoc by_token_def)

lemma visits_of_addModule:
  assumes "visits_of (reg, c) visits"
  shows "visits_of (reg @ [m], addModule m scope c) (visits @ [(m, length scope)])"
proof -
  from assms have reg: "reg = map fst visits"
    and mods: "map (\<lambda>e. (fst e, m_metatype (snd e), m_distance (snd e))) (modules c)
          = map (\<lambda>v. (class_name (fst v), v)) (by_token visits)"
    by (simp_all add: visits_of_def)
  from mods have "map fst (modules c) = map (\<lambda>v. class_name (fst v)) (by_token visits)"
    by (simp add: list_eq_iff_nth_eq prod_eq_iff)
  then have keys: "fst ` set (modules c) = (\<lambda>k. class_name (fst k)) ` set (by_token visits)"
    by (metis (no_types, lifting) image_set)
  show ?thesis
  proof (cases "class_name m \<in> fst ` set (modules c)")
    case True
    with addModule_present [of m c scope] keys reg mods show ?thesis
      by (simp add: visits_of_def by_token_snoc)
  next
    case False
    with addModule_absent [of m c scope] keys reg mods show ?thesis
      by (simp add: visits_of_def by_token_snoc new_Module_def)
  qed
qed


lemma first_visit_dfs_Nil: "first_visit_dfs R [] visits = Some visits"
  by (subst first_visit_dfs.simps) simp

lemma first_visit_dfs_seen:
  "m \<in> fst ` set visits \<Longrightarrow> first_visit_dfs R ((m, chain) # rest) visits = first_visit_dfs R rest visits"
  by (subst first_visit_dfs.simps) simp

lemma first_visit_dfs_new:
  "m \<notin> fst ` set visits \<Longrightarrow>
   first_visit_dfs R ((m, chain) # rest) visits
     = first_visit_dfs R (map (\<lambda>i. (i, chain @ [m])) (rf_imports R m) @ rest) (visits @ [(m, length chain)])"
  by (subst first_visit_dfs.simps) simp

lemma scanImports_dfs:
  assumes one: "\<And>m scope st st'. scanForModules n R m scope st = Some st' \<Longrightarrow> dfs_step R [(m, scope)] st st'"
  shows "scanImports n R ms scope st = Some st' \<Longrightarrow> dfs_step R (map (\<lambda>i. (i, scope)) ms) st st'"
proof (induction ms arbitrary: st)
  case Nil
  then show ?case by (auto simp: dfs_step_def)
next
  case (Cons i ms st)
  from Cons.prems obtain st1 where a: "scanForModules n R i scope st = Some st1"
    and b: "scanImports n R ms scope st1 = Some st'"
    by (auto split: option.splits)
  from one [OF a] have s1: "dfs_step R [(i, scope)] st st1" .
  from Cons.IH [OF b] have s2: "dfs_step R (map (\<lambda>i. (i, scope)) ms) st1 st'" .
  show ?case
    unfolding dfs_step_def
  proof (intro allI impI)
    fix visits assume v: "visits_of st visits"
    from s1 v obtain v1 where v1: "visits_of st1 v1"
      and e1: "\<forall>rest. first_visit_dfs R ([(i, scope)] @ rest) visits = first_visit_dfs R rest v1"
      unfolding dfs_step_def by blast
    from s2 v1 obtain v2 where v2: "visits_of st' v2"
      and e2: "\<forall>rest. first_visit_dfs R (map (\<lambda>i. (i, scope)) ms @ rest) v1 = first_visit_dfs R rest v2"
      unfolding dfs_step_def by blast
    have "first_visit_dfs R (map (\<lambda>i. (i, scope)) (i # ms) @ rest) visits = first_visit_dfs R rest v2" for rest
      using e1 [THEN spec, of "map (\<lambda>i. (i, scope)) ms @ rest"] e2 by simp
    with v2 show "\<exists>visits'. visits_of st' visits'
        \<and> (\<forall>rest. first_visit_dfs R (map (\<lambda>i. (i, scope)) (i # ms) @ rest) visits
               = first_visit_dfs R rest visits')"
      by blast
  qed
qed

lemma scanForModules_dfs:
  "scanForModules n R m scope st = Some st' \<Longrightarrow> dfs_step R [(m, scope)] st st'"
proof (induction n arbitrary: m scope st st')
  case 0
  then show ?case by simp
next
  case (Suc n m scope st st')
  obtain reg c where st: "st = (reg, c)" by (cases st)
  show ?case
    unfolding dfs_step_def
  proof (intro allI impI)
    fix visits assume v: "visits_of st visits"
    then have reg: "reg = map fst visits" by (simp add: visits_of_def st)
    show "\<exists>visits'. visits_of st' visits'
        \<and> (\<forall>rest. first_visit_dfs R ([(m, scope)] @ rest) visits = first_visit_dfs R rest visits')"
    proof (cases "m \<in> set reg")
      case True
      with Suc.prems have "st' = st" by (simp add: st)
      moreover from True reg have "m \<in> fst ` set visits" by simp
      ultimately show ?thesis using v by (auto simp: first_visit_dfs_seen)
    next
      case False
      with Suc.prems have loop: "scanImports n R (rf_imports R m) (scope @ [m])
          (reg @ [m], addModule m scope c) = Some st'"
        by (simp add: st)
      have "dfs_step R (map (\<lambda>i. (i, scope @ [m])) (rf_imports R m)) (reg @ [m], addModule m scope c) st'"
        by (rule scanImports_dfs [OF _ loop]) (rule Suc.IH)
      moreover have "visits_of (reg @ [m], addModule m scope c) (visits @ [(m, length scope)])"
        using v unfolding st by (rule visits_of_addModule)
      ultimately obtain v' where v': "visits_of st' v'"
        and e: "\<forall>rest. first_visit_dfs R (map (\<lambda>i. (i, scope @ [m])) (rf_imports R m) @ rest)
                  (visits @ [(m, length scope)]) = first_visit_dfs R rest v'"
        unfolding dfs_step_def by blast
      from False reg have "m \<notin> fst ` set visits" by simp
      with e have "\<forall>rest. first_visit_dfs R ([(m, scope)] @ rest) visits = first_visit_dfs R rest v'"
        by (simp add: first_visit_dfs_new)
      with v' show ?thesis by blast
    qed
  qed
qed

lemma scan_is_first_visit_dfs:
  assumes "scanForModules fuel R root [] ([], new_NestContainer) = Some (registry, c)"
  shows "\<exists>visits. first_visit_dfs R [(root, [])] [] = Some visits
      \<and> registry = map fst visits
      \<and> map (\<lambda>e. (fst e, m_metatype (snd e), m_distance (snd e))) (modules c)
          = map (\<lambda>v. (class_name (fst v), v)) (by_token visits)"
proof -
  have "visits_of ([], new_NestContainer) []"
    by (simp add: visits_of_def new_NestContainer_def by_token_def)
  with scanForModules_dfs [OF assms] obtain visits where v: "visits_of (registry, c) visits"
    and e: "\<forall>rest. first_visit_dfs R ([(root, [])] @ rest) [] = first_visit_dfs R rest visits"
    unfolding dfs_step_def by blast
  from e [THEN spec, of "[]"] have "first_visit_dfs R [(root, [])] [] = Some visits"
    by (simp add: first_visit_dfs_Nil)
  with v show ?thesis by (auto simp: visits_of_def)
qed

lemma by_token_distinct_names:
  "distinct (map (\<lambda>v. class_name (fst v)) visits) \<Longrightarrow> by_token visits = visits"
  by (induction visits rule: rev_induct) (auto simp: by_token_snoc by_token_names by_token_def)


text \<open>
  C7 (scanner registration and distance). For every import graph with finitely many
  modules reachable from the root (diamonds, repeated imports and cycles included),
  discovery returns with any fuel above their number; the registry then holds exactly the
  reachable modules, each once; the container holds each token once, and the distance of
  every entry is the number of import steps of a real chain from the root to that module;
  when no two reachable modules share a name, the container's entries are the reachable
  modules in the order of their first visit. A module visited for the first time is
  registered with the length of the scope of that visit, and no later step changes an
  entry. Whenever discovery returns, on any graph, its result is that of the depth-first
  walk of the specification through the declared imports in their order: the registry
  lists the modules in the order of their first visit, and the container holds under
  every name the module and the length of the import chain of the first visit with
  that name (of every visit, when no two visited modules share a name). The distance
  depends on the declared order and is not the shortest path: with Root importing
  [A, B] and A importing [B], B gets distance 2; with Root importing [B, A] it gets
  distance 1; below the root, with Root importing [X], X importing [A, B] and A
  importing [B], B gets distance 3, and 2 when X imports [B, A].
\<close>

theorem scanner_registers_once_first_visit_distance:
  "(finite (reach R root) \<longrightarrow>
     (\<exists>registry container.
        (\<forall>fuel > card (reach R root).
           scanForModules fuel R root [] ([], new_NestContainer) = Some (registry, container))
        \<and> distinct registry \<and> set registry = reach R root
        \<and> distinct (map fst (modules container))
        \<and> set (map fst (modules container)) = class_name ` reach R root
        \<and> (\<forall>e \<in> set (modules container).
              fst e = class_name (m_metatype (snd e)) \<and> m_metatype (snd e) \<in> reach R root
              \<and> (\<exists>path. import_chain R path \<and> hd path = root \<and> last path = m_metatype (snd e)
                     \<and> length path = Suc (m_distance (snd e))))
        \<and> (inj_on class_name (reach R root) \<longrightarrow>
              map (\<lambda>e. m_metatype (snd e)) (modules container) = registry)))
   \<and> (scanForModules n R m scope (reg, c) = Some (reg', c') \<longrightarrow>
        (\<forall>token. token \<in> fst ` set (modules c) \<longrightarrow>
            map_of (modules c') token = map_of (modules c) token)
        \<and> (m \<notin> set reg \<and> class_name m \<notin> fst ` set (modules c) \<longrightarrow>
             map_of (modules c') (class_name m)
               = Some ((new_Module m (class_name m))\<lparr>m_distance := length scope\<rparr>)))
   \<and> (scanForModules k R root [] ([], new_NestContainer) = Some (found, filled) \<longrightarrow>
        (\<exists>visits. first_visit_dfs R [(root, [])] [] = Some visits
           \<and> found = map fst visits
           \<and> map (\<lambda>e. (fst e, m_metatype (snd e), m_distance (snd e))) (modules filled)
               = map (\<lambda>v. (class_name (fst v), v)) (by_token visits)
           \<and> (distinct (map (\<lambda>v. class_name (fst v)) visits) \<longrightarrow> by_token visits = visits)))
   \<and> map_option (\<lambda>st. distances (snd st))
         (scanForModules 4 (module_graph [(0, ''Root'', [1, 2]), (1, ''A'', [2]), (2, ''B'', [])])
            (Class 0 ''Root'') [] ([], new_NestContainer))
       = Some [(''Root'', 0), (''A'', 1), (''B'', 2)]
   \<and> map_option (\<lambda>st. distances (snd st))
         (scanForModules 4 (module_graph [(0, ''Root'', [2, 1]), (1, ''A'', [2]), (2, ''B'', [])])
            (Class 0 ''Root'') [] ([], new_NestContainer))
       = Some [(''Root'', 0), (''B'', 1), (''A'', 1)]
   \<and> map_option (\<lambda>st. distances (snd st))
         (scanForModules 5 (module_graph [(0, ''Root'', [1]), (1, ''X'', [2, 3]), (2, ''A'', [3]), (3, ''B'', [])])
            (Class 0 ''Root'') [] ([], new_NestContainer))
       = Some [(''Root'', 0), (''X'', 1), (''A'', 2), (''B'', 3)]
   \<and> map_option (\<lambda>st. distances (snd st))
         (scanForModules 5 (module_graph [(0, ''Root'', [1]), (1, ''X'', [3, 2]), (2, ''A'', [3]), (3, ''B'', [])])
            (Class 0 ''Root'') [] ([], new_NestContainer))
       = Some [(''Root'', 0), (''X'', 1), (''B'', 2), (''A'', 2)]"
proof (intro conjI)
  show "finite (reach R root) \<longrightarrow>
     (\<exists>registry container.
        (\<forall>fuel > card (reach R root).
           scanForModules fuel R root [] ([], new_NestContainer) = Some (registry, container))
        \<and> distinct registry \<and> set registry = reach R root
        \<and> distinct (map fst (modules container))
        \<and> set (map fst (modules container)) = class_name ` reach R root
        \<and> (\<forall>e \<in> set (modules container).
              fst e = class_name (m_metatype (snd e)) \<and> m_metatype (snd e) \<in> reach R root
              \<and> (\<exists>path. import_chain R path \<and> hd path = root \<and> last path = m_metatype (snd e)
                     \<and> length path = Suc (m_distance (snd e))))
        \<and> (inj_on class_name (reach R root) \<longrightarrow>
              map (\<lambda>e. m_metatype (snd e)) (modules container) = registry))"
  proof
    assume fin: "finite (reach R root)"
    from scan_result [OF fin] obtain registry container where
      run: "\<forall>fuel > card (reach R root).
          scanForModules fuel R root [] ([], new_NestContainer) = Some (registry, container)"
      and inv: "scan_inv R root (registry, container)" and eq: "set registry = reach R root"
      by blast
    from inv eq have "distinct registry \<and> set registry = reach R root
        \<and> distinct (map fst (modules container))
        \<and> set (map fst (modules container)) = class_name ` reach R root
        \<and> (\<forall>e \<in> set (modules container).
              fst e = class_name (m_metatype (snd e)) \<and> m_metatype (snd e) \<in> reach R root
              \<and> (\<exists>path. import_chain R path \<and> hd path = root \<and> last path = m_metatype (snd e)
                     \<and> length path = Suc (m_distance (snd e))))
        \<and> (inj_on class_name (reach R root) \<longrightarrow>
              map (\<lambda>e. m_metatype (snd e)) (modules container) = registry)"
      unfolding scan_inv_def entry_ok_def chain_from_def by auto
    with run show "\<exists>registry container.
        (\<forall>fuel > card (reach R root).
           scanForModules fuel R root [] ([], new_NestContainer) = Some (registry, container))
        \<and> distinct registry \<and> set registry = reach R root
        \<and> distinct (map fst (modules container))
        \<and> set (map fst (modules container)) = class_name ` reach R root
        \<and> (\<forall>e \<in> set (modules container).
              fst e = class_name (m_metatype (snd e)) \<and> m_metatype (snd e) \<in> reach R root
              \<and> (\<exists>path. import_chain R path \<and> hd path = root \<and> last path = m_metatype (snd e)
                     \<and> length path = Suc (m_distance (snd e))))
        \<and> (inj_on class_name (reach R root) \<longrightarrow>
              map (\<lambda>e. m_metatype (snd e)) (modules container) = registry)"
      by blast
  qed
  show "scanForModules n R m scope (reg, c) = Some (reg', c') \<longrightarrow>
        (\<forall>token. token \<in> fst ` set (modules c) \<longrightarrow>
            map_of (modules c') token = map_of (modules c) token)
        \<and> (m \<notin> set reg \<and> class_name m \<notin> fst ` set (modules c) \<longrightarrow>
             map_of (modules c') (class_name m)
               = Some ((new_Module m (class_name m))\<lparr>m_distance := length scope\<rparr>))"
    using scanForModules_first_visit [of n R m scope reg c reg' c'] by blast
  show "map_option (\<lambda>st. distances (snd st))
         (scanForModules 4 (module_graph [(0, ''Root'', [1, 2]), (1, ''A'', [2]), (2, ''B'', [])])
            (Class 0 ''Root'') [] ([], new_NestContainer))
       = Some [(''Root'', 0), (''A'', 1), (''B'', 2)]"
    by code_simp
  show "map_option (\<lambda>st. distances (snd st))
         (scanForModules 4 (module_graph [(0, ''Root'', [2, 1]), (1, ''A'', [2]), (2, ''B'', [])])
            (Class 0 ''Root'') [] ([], new_NestContainer))
       = Some [(''Root'', 0), (''B'', 1), (''A'', 1)]"
    by code_simp
  show "scanForModules k R root [] ([], new_NestContainer) = Some (found, filled) \<longrightarrow>
        (\<exists>visits. first_visit_dfs R [(root, [])] [] = Some visits
           \<and> found = map fst visits
           \<and> map (\<lambda>e. (fst e, m_metatype (snd e), m_distance (snd e))) (modules filled)
               = map (\<lambda>v. (class_name (fst v), v)) (by_token visits)
           \<and> (distinct (map (\<lambda>v. class_name (fst v)) visits) \<longrightarrow> by_token visits = visits))"
    using scan_is_first_visit_dfs [of k R root found filled] by_token_distinct_names by blast
  show "map_option (\<lambda>st. distances (snd st))
         (scanForModules 5 (module_graph [(0, ''Root'', [1]), (1, ''X'', [2, 3]), (2, ''A'', [3]), (3, ''B'', [])])
            (Class 0 ''Root'') [] ([], new_NestContainer))
       = Some [(''Root'', 0), (''X'', 1), (''A'', 2), (''B'', 3)]"
    by code_simp
  show "map_option (\<lambda>st. distances (snd st))
         (scanForModules 5 (module_graph [(0, ''Root'', [1]), (1, ''X'', [3, 2]), (2, ''A'', [3]), (3, ''B'', [])])
            (Class 0 ''Root'') [] ([], new_NestContainer))
       = Some [(''Root'', 0), (''X'', 1), (''B'', 2), (''A'', 2)]"
    by code_simp
qed

lemma diamond_reach:
  "reach diamond (Class 0 ''Root'') \<subseteq> {Class 0 ''Root'', Class 1 ''A'', Class 2 ''B''}"
  by (rule reach_subset) (auto simp: diamond_def module_graph_def)

theorem scanner_registers_once_first_visit_distance_witness:
  "finite (reach diamond (Class 0 ''Root''))
   \<and> (\<exists>registry container.
         scanForModules 4 diamond (Class 0 ''Root'') [] ([], new_NestContainer)
           = Some (registry, container)
         \<and> set registry = reach diamond (Class 0 ''Root'')
         \<and> distinct (map fst (modules container)))
   \<and> first_visit_dfs deep_diamond [(Class 0 ''Root'', [])] []
       = Some [(Class 0 ''Root'', 0), (Class 1 ''X'', 1), (Class 2 ''A'', 2), (Class 3 ''B'', 3)]"
proof (intro conjI)
  show fin: "finite (reach diamond (Class 0 ''Root''))"
    using diamond_reach by (rule finite_subset) simp
  have "card (reach diamond (Class 0 ''Root'')) \<le> card {Class 0 ''Root'', Class 1 ''A'', Class 2 ''B''}"
    using diamond_reach by (intro card_mono) simp_all
  then have c: "card (reach diamond (Class 0 ''Root'')) < 4" by simp
  from scanner_registers_once_first_visit_distance [where R = diamond and root = "Class 0 ''Root''",
      THEN conjunct1, THEN mp, OF fin] c
  show "\<exists>registry container.
         scanForModules 4 diamond (Class 0 ''Root'') [] ([], new_NestContainer)
           = Some (registry, container)
         \<and> set registry = reach diamond (Class 0 ''Root'')
         \<and> distinct (map fst (modules container))"
    by blast
  let ?run = "scanForModules 5 deep_diamond (Class 0 ''Root'') [] ([], new_NestContainer)"
  have "?run \<noteq> None" by code_simp
  then have run: "?run = Some (fst (the ?run), snd (the ?run))" by auto
  have reg: "fst (the ?run) = [Class 0 ''Root'', Class 1 ''X'', Class 2 ''A'', Class 3 ''B'']"
    by code_simp
  have mods: "map (\<lambda>e. (fst e, m_metatype (snd e), m_distance (snd e))) (modules (snd (the ?run)))
      = [(''Root'', Class 0 ''Root'', 0), (''X'', Class 1 ''X'', 1), (''A'', Class 2 ''A'', 2),
         (''B'', Class 3 ''B'', 3)]"
    by code_simp
  from scanner_registers_once_first_visit_distance [where R = deep_diamond and root = "Class 0 ''Root''"
      and k = 5 and found = "fst (the ?run)" and filled = "snd (the ?run)",
      THEN conjunct2, THEN conjunct2, THEN conjunct1, THEN mp, OF run]
  obtain visits where v: "first_visit_dfs deep_diamond [(Class 0 ''Root'', [])] [] = Some visits"
    and r: "fst (the ?run) = map fst visits"
    and m: "map (\<lambda>e. (fst e, m_metatype (snd e), m_distance (snd e))) (modules (snd (the ?run)))
               = map (\<lambda>v. (class_name (fst v), v)) (by_token visits)"
    and d: "distinct (map (\<lambda>v. class_name (fst v)) visits) \<longrightarrow> by_token visits = visits"
    by blast
  have "map (\<lambda>v. class_name (fst v)) visits = map class_name (fst (the ?run))"
    unfolding r by simp
  then have "distinct (map (\<lambda>v. class_name (fst v)) visits)" unfolding reg by simp
  with d have "by_token visits = visits" by simp
  with m mods have "map (\<lambda>v. (class_name (fst v), v)) visits
      = [(''Root'', Class 0 ''Root'', 0), (''X'', Class 1 ''X'', 1), (''A'', Class 2 ''A'', 2),
         (''B'', Class 3 ''B'', 3)]"
    by simp
  then have "map snd (map (\<lambda>v. (class_name (fst v), v)) visits)
      = map snd [(''Root'', Class 0 ''Root'', 0), (''X'', Class 1 ''X'', 1), (''A'', Class 2 ''A'', 2),
         (''B'', Class 3 ''B'', 3)]"
    by (rule arg_cong)
  then have "visits = [(Class 0 ''Root'', 0), (Class 1 ''X'', 1), (Class 2 ''A'', 2), (Class 3 ''B'', 3)]"
    by (simp add: comp_def)
  with v show "first_visit_dfs deep_diamond [(Class 0 ''Root'', [])] []
       = Some [(Class 0 ''Root'', 0), (Class 1 ''X'', 1), (Class 2 ''A'', 2), (Class 3 ''B'', 3)]"
    by simp
qed

section \<open>Calls of the injector only add resolved wrappers\<close>



declare keeps.simps(4) [simp del]

lemma grows_refl: "grows s s"
  by (simp add: grows_def)













lemma ok_Failed: "ok Q (\<lambda>s. (Failed e, s)) s"
  by (simp add: ok_def grows_refl)










lemma loadProvider_Suc:
  "loadProvider (Suc fuel) R wrapper moduleRef s =
     (if isResolved s wrapper then (Done (), s)
      else await_call (resolveConstructorParams fuel R wrapper moduleRef) (\<lambda>_ s. (Done (), s)) s)"
  by simp


lemma resolveSingleParam_apply:
  "resolveSingleParam fuel R dependency moduleRef wrapper index s =
     (case dependency of
        None \<Rightarrow> (Failed (UnresolvedParameter (wrapper_name s wrapper) index), s)
      | Some dep \<Rightarrow>
          (case get_wrapper s (ProviderOf moduleRef dep) of
             Some instanceWrapper \<Rightarrow>
               resolve_found fuel R (Some (ProviderOf moduleRef dep)) moduleRef dep s
           | None \<Rightarrow>
               await_call (lookupComponentInImports fuel moduleRef dep)
                 (\<lambda>found. resolve_found fuel R found moduleRef dep) s))"
  by simp



declare loadProvider.simps [simp del] resolveConstructorParams.simps [simp del]
  resolveSingleParam.simps [simp del] resolve_found.simps [simp del]







section \<open>Bootstrap: every wrapper is resolved\<close>


























section \<open>Singletons\<close>

lemma loadProvider_resolved:
  "isResolved s wrapper \<Longrightarrow> loadProvider (Suc fuel) R wrapper moduleRef s = (Done (), s)"
  by (simp add: loadProvider_Suc)

text \<open>
  C2. A singleton binding is meant to contribute one instance, never replaced once
  the binding is resolved. \<open>loadProvider\<close> returns at once for a resolved wrapper
  (\<open>loadProvider_resolved\<close>), but it tests the flag before it awaits the constructor
  parameters and sets it after. In \<open>report_app\<close> creation first loads \<open>ReportService\<close>,
  whose two parameters are resolved side by side under \<open>Promise.all\<close>: both reach
  \<open>loadProvider\<close> for the wrapper of \<open>DatabaseService\<close> while it is unresolved. Creation
  returns, \<open>DatabaseService\<close> has been constructed twice, and the second object has
  replaced the first as the instance of the wrapper.
\<close>

theorem singleton_constructed_twice:
  "fulfilled_with (fst (create_container 10 report_app TestModule)) = Some ()
   \<and> instances_of DatabaseService (snd (create_container 10 report_app TestModule))
       = [Inst 0 DatabaseService [], Inst 1 DatabaseService []]
   \<and> instance_of (snd (create_container 10 report_app TestModule)) (ProviderOf ''TestModule'' DatabaseService)
       = Some (Inst 1 DatabaseService [])"
  by code_simp

section \<open>The visibility search\<close>

lemma yields_Suspended:
  "yields c v (Suspended k) = (\<forall>t. container t = c \<longrightarrow> yields c v (fst (k t)) \<and> snd (k t) = t)"
  by (simp add: split_beta)

declare yields.simps(4) [simp del]

lemma yields_await_async:
  assumes k: "\<And>t :: injection. container t = c \<Longrightarrow> yields c v (fst (k a t)) \<and> snd (k a t) = t"
  shows "yields c a r \<Longrightarrow> yields c v (await_async r k)"
proof (induction r)
  case (Done b)
  then show ?case using k by (simp add: yields_Suspended)
next
  case (Suspended f)
  show ?case
    unfolding await_async.simps yields_Suspended
  proof (intro allI impI)
    fix t :: injection
    assume t: "container t = c"
    from Suspended.prems t have a: "yields c a (fst (f t))" and b: "snd (f t) = t"
      by (simp_all add: yields_Suspended)
    have "fst (f t) \<in> Basic_BNFs.fsts (f t)" by (cases "f t") simp
    from Suspended.IH [OF _ this a] have "yields c v (await_async (fst (f t)) k)" by simp
    with b show "yields c v (fst (map_prod (\<lambda>r. await_async r k) id (f t)))
        \<and> snd (map_prod (\<lambda>r. await_async r k) id (f t)) = t"
      by (cases "f t") simp
  qed
qed simp_all

lemma yields_run:
  "yields c v r \<Longrightarrow> container s = c \<Longrightarrow> \<exists>k. \<forall>fuel\<ge>k. run fuel r s = (Done v, s)"
proof (induction r)
  case (Done a)
  then show ?case by simp
next
  case (Suspended f)
  from Suspended.prems have a: "yields c v (fst (f s))" and b: "snd (f s) = s"
    by (simp_all add: yields_Suspended)
  have "fst (f s) \<in> Basic_BNFs.fsts (f s)" by (cases "f s") simp
  from Suspended.IH [OF _ this a Suspended.prems(2)]
  obtain k where k: "\<forall>fuel\<ge>k. run fuel (fst (f s)) s = (Done v, s)" by auto
  have "run fuel (Suspended f) s = (Done v, s)" if "fuel \<ge> Suc k" for fuel
  proof -
    from that obtain m where m: "fuel = Suc m" and "m \<ge> k" by (cases fuel) auto
    with k b show ?thesis by (simp add: split_beta)
  qed
  then show ?case by blast
qed simp_all


lemma exports_providedD:
  "exports_provided c \<Longrightarrow> map_of (modules c) R = Some r \<Longrightarrow> T \<in> set (m_exports r) \<Longrightarrow>
   \<exists>p. map_of (m_providers r) T = Some p"
  by (auto simp: exports_provided_def list_all_iff dest!: map_of_SomeD)

lemma lookup_refines_all:
  "\<forall>s v. exports_provided (container s) \<longrightarrow> visibility_search n (container s) moduleRef token = Some v \<longrightarrow>
      yields (container s) v (fst (lookupComponentInImports n moduleRef token s))
      \<and> snd (lookupComponentInImports n moduleRef token s) = s"
  "\<forall>s v. exports_provided (container s) \<longrightarrow> search_imports n (container s) rels token = Some v \<longrightarrow>
      yields (container s) v (fst (lookup_loop n rels token s))
      \<and> snd (lookup_loop n rels token s) = s"
proof (induction n moduleRef token and n rels token
    rule: lookupComponentInImports_lookup_loop.induct)
  case (1 moduleRef token)
  show ?case by simp
next
  case (2 fuel moduleRef token)
  show ?case
  proof (intro allI impI)
    fix s :: injection and v
    assume wf: "exports_provided (container s)"
      and v: "visibility_search (Suc fuel) (container s) moduleRef token = Some v"
    show "yields (container s) v (fst (lookupComponentInImports (Suc fuel) moduleRef token s))
        \<and> snd (lookupComponentInImports (Suc fuel) moduleRef token s) = s"
    proof (cases "get_module s moduleRef")
      case None
      with v show ?thesis by (simp add: get_module_def)
    next
      case (Some m)
      with 2 [of s m] wf v show ?thesis by (simp add: get_module_def)
    qed
  qed
next
  case (3 fuel token)
  show ?case by simp
next
  case (4 fuel relatedModule rest token)
  show ?case
  proof (intro allI impI)
    fix s :: injection and v
    assume wf: "exports_provided (container s)"
      and v: "search_imports fuel (container s) (relatedModule # rest) token = Some v"
    let ?c = "container s"
    show "yields ?c v (fst (lookup_loop fuel (relatedModule # rest) token s))
        \<and> snd (lookup_loop fuel (relatedModule # rest) token s) = s"
    proof (cases "get_module s relatedModule")
      case None
      with 4(1) [of s] wf v show ?thesis by (simp add: get_module_def)
    next
      case (Some related)
      then have m: "map_of (modules ?c) relatedModule = Some related" by (simp add: get_module_def)
      show ?thesis
      proof (cases "hasExport related token")
        case True
        then have ex: "token \<in> set (m_exports related)" by (simp add: hasExport_def)
        from exports_providedD [OF wf m ex] obtain p where "map_of (m_providers related) token = Some p" ..
        with Some True m ex v show ?thesis by simp
      next
        case False
        then have ex: "token \<notin> set (m_exports related)" by (simp add: hasExport_def)
        from v m ex obtain a where a: "visibility_search fuel ?c relatedModule token = Some a"
          by (cases "visibility_search fuel ?c relatedModule token") auto
        from 4(2) [OF Some] False wf a
        have y: "yields ?c a (fst (lookupComponentInImports fuel relatedModule token s))"
          and st: "snd (lookupComponentInImports fuel relatedModule token s) = s"
          by simp_all
        let ?k = "\<lambda>found. case found of
                                  Some w \<Rightarrow> (\<lambda>s. (Done (Some w), s))
                                | None \<Rightarrow> lookup_loop fuel rest token"
        have "yields ?c v (await_async (fst (lookupComponentInImports fuel relatedModule token s)) ?k)"
        proof (rule yields_await_async [OF _ y])
          fix t :: injection
          assume t: "container t = ?c"
          show "yields ?c v (fst (?k a t)) \<and> snd (?k a t) = t"
          proof (cases a)
            case None
            with v m ex a have "search_imports fuel (container t) rest token = Some v" by (simp add: t)
            moreover from wf t have "exports_provided (container t)" by simp
            moreover note 4(3) [OF Some, THEN spec, of t, THEN spec, of v]
            ultimately have "yields (container t) v (fst (lookup_loop fuel rest token t))
                \<and> snd (lookup_loop fuel rest token t) = t"
              using False by blast
            with None t show ?thesis by simp
          next
            case (Some hit)
            with v m ex a have "v = Some hit" by simp
            with Some show ?thesis by simp
          qed
        qed
        with Some False st show ?thesis by (simp add: await_call_def split_beta)
      qed
    qed
  qed
qed


lemma search_imports_hit:
  assumes r: "map_of (modules c) R = Some r"
    and hit: "T \<in> set (m_exports r) \<or> visibility_search n c R T \<noteq> Some None"
  shows "R \<in> set Rs \<Longrightarrow> search_imports n c Rs T \<noteq> Some None"
proof (induction Rs)
  case Nil
  then show ?case by simp
next
  case (Cons x Rs)
  show ?case
  proof (cases "x = R")
    case True
    with r hit show ?thesis
      by (auto split: option.splits)
  next
    case False
    with Cons have "search_imports n c Rs T \<noteq> Some None" by simp
    then show ?thesis
      by (auto split: option.splits)
  qed
qed

lemma look_through_hit:
  "exported_along c T M path \<Longrightarrow> visibility_search n c M T \<noteq> Some None"
proof (induction n arbitrary: M path)
  case 0
  show ?case by simp
next
  case (Suc n M path)
  from Suc.prems obtain R p where path: "path = R # p" by (cases path) auto
  from Suc.prems path obtain m r where m: "map_of (modules c) M = Some m"
    and r: "map_of (modules c) R = Some r" and mem: "R \<in> set (m_imports m)"
    and rest: "if p = [] then T \<in> set (m_exports r) else exported_along c T R p"
    by (auto split: option.splits)
  have "T \<in> set (m_exports r) \<or> visibility_search n c R T \<noteq> Some None"
  proof (cases "p = []")
    case True
    with rest show ?thesis by simp
  next
    case False
    with rest have "exported_along c T R p" by simp
    from Suc.IH [OF this] show ?thesis by simp
  qed
  from search_imports_hit [OF r this mem] m show ?case by simp
qed

lemma search_imports_returns:
  "\<forall>R\<in>set Rs. map_of (modules c) R \<noteq> None \<longrightarrow> visibility_search n c R T \<noteq> None \<Longrightarrow>
   search_imports n c Rs T \<noteq> None"
proof (induction Rs)
  case Nil
  show ?case by simp
next
  case (Cons x Rs)
  then have ih: "search_imports n c Rs T \<noteq> None" by simp
  show ?case
  proof (cases "map_of (modules c) x")
    case None
    with ih show ?thesis by simp
  next
    case (Some r)
    with Cons.prems have "visibility_search n c x T \<noteq> None" by simp
    with Some ih show ?thesis by (auto split: option.splits)
  qed
qed

lemma rankedD:
  "ranked c rank \<Longrightarrow> map_of (modules c) M = Some m \<Longrightarrow> R \<in> set (m_imports m) \<Longrightarrow> rank R < rank M"
  by (auto simp: ranked_def list_all_iff dest!: map_of_SomeD)

lemma visibility_search_returns:
  assumes "ranked c rank"
  shows "rank M < n \<Longrightarrow> visibility_search n c M T \<noteq> None"
proof (induction n arbitrary: M)
  case 0
  then show ?case by simp
next
  case (Suc n M)
  show ?case
  proof (cases "map_of (modules c) M")
    case None
    then show ?thesis by simp
  next
    case (Some m)
    have "search_imports n c (m_imports m) T \<noteq> None"
    proof (rule search_imports_returns, intro ballI impI)
      fix R assume "R \<in> set (m_imports m)"
      from rankedD [OF assms Some this] Suc.prems have "rank R < n" by simp
      then show "visibility_search n c R T \<noteq> None" by (rule Suc.IH)
    qed
    with Some show ?thesis by simp
  qed
qed

lemma lookup_refines:
  assumes "exports_provided (container s)" and "visibility_search n (container s) M T = Some v"
  shows "yields (container s) v (fst (lookupComponentInImports n M T s))"
    and "snd (lookupComponentInImports n M T s) = s"
    and "\<exists>k. \<forall>fuel\<ge>k. (case lookupComponentInImports n M T s of (r, s') \<Rightarrow> run fuel r s') = (Done v, s)"
proof -
  from lookup_refines_all(1) [of n M T] assms
  show y: "yields (container s) v (fst (lookupComponentInImports n M T s))"
    and st: "snd (lookupComponentInImports n M T s) = s"
    by blast+
  from yields_run [OF y refl] st
  show "\<exists>k. \<forall>fuel\<ge>k. (case lookupComponentInImports n M T s of (r, s') \<Rightarrow> run fuel r s') = (Done v, s)"
    by (simp add: split_beta)
qed

text \<open>
  C1. In a container whose modules export only tokens they provide, the search of the
  injector for token \<open>T\<close> in the imports of module \<open>M\<close> is the visibility search of
  the specification: it visits the imports in their order, returns the binding of an
  import that exports \<open>T\<close>, looks through an import that does not into that module's
  own imports, and returns the first hit. Whenever the bounded search of the
  specification gives \<open>v\<close>, the call \<open>lookupComponentInImports\<close> is fulfilled with
  \<open>v\<close>, whatever runs between its turns, and changes nothing. If a chain of imports
  leads from \<open>M\<close> to a module that exports \<open>T\<close>, whether or not the modules in
  between export it, and the imports have no cycle, the search returns a hit. The
  injector searches the imports exactly when \<open>M\<close> has no binding for \<open>T\<close> itself.
\<close>

theorem visibility_look_through:
  assumes "exports_provided (container s)"
  shows "(\<forall>v. visibility_search n (container s) M T = Some v \<longrightarrow>
            yields (container s) v (fst (lookupComponentInImports n M T s))
            \<and> snd (lookupComponentInImports n M T s) = s
            \<and> (\<exists>k. \<forall>fuel\<ge>k.
                  (case lookupComponentInImports n M T s of (r, s') \<Rightarrow> run fuel r s') = (Done v, s)))
       \<and> (exported_along (container s) T M path \<longrightarrow> visibility_search n (container s) M T \<noteq> Some None)
       \<and> (exported_along (container s) T M path \<longrightarrow> ranked (container s) rank \<longrightarrow> rank M < n \<longrightarrow>
            (\<exists>hit k. visibility_search n (container s) M T = Some (Some hit)
               \<and> (\<forall>fuel\<ge>k.
                    (case lookupComponentInImports n M T s of (r, s') \<Rightarrow> run fuel r s')
                      = (Done (Some hit), s))))
       \<and> (get_wrapper s (ProviderOf M T) = None \<longrightarrow>
            resolveSingleParam n R (Some T) M w i s
              = await_call (lookupComponentInImports n M T) (\<lambda>found. resolve_found n R found M T) s)
       \<and> (get_wrapper s (ProviderOf M T) \<noteq> None \<longrightarrow>
            resolveSingleParam n R (Some T) M w i s = resolve_found n R (Some (ProviderOf M T)) M T s)"
proof (intro conjI allI impI)
  fix v
  assume v: "visibility_search n (container s) M T = Some v"
  from lookup_refines [OF assms v]
  show "yields (container s) v (fst (lookupComponentInImports n M T s))"
    and "snd (lookupComponentInImports n M T s) = s"
    and "\<exists>k. \<forall>fuel\<ge>k. (case lookupComponentInImports n M T s of (r, s') \<Rightarrow> run fuel r s') = (Done v, s)"
    by blast+
next
  assume "exported_along (container s) T M path"
  then show "visibility_search n (container s) M T \<noteq> Some None" by (rule look_through_hit)
next
  assume ch: "exported_along (container s) T M path" and rk: "ranked (container s) rank" and n: "rank M < n"
  from visibility_search_returns [OF rk n, of T] look_through_hit [OF ch, of n]
  obtain hit where hit: "visibility_search n (container s) M T = Some (Some hit)"
    by (cases "visibility_search n (container s) M T") auto
  from lookup_refines(3) [OF assms hit] hit
  show "\<exists>hit k. visibility_search n (container s) M T = Some (Some hit)
               \<and> (\<forall>fuel\<ge>k.
                    (case lookupComponentInImports n M T s of (r, s') \<Rightarrow> run fuel r s')
                      = (Done (Some hit), s))"
    by blast
next
  assume "get_wrapper s (ProviderOf M T) = None"
  then show "resolveSingleParam n R (Some T) M w i s
      = await_call (lookupComponentInImports n M T) (\<lambda>found. resolve_found n R found M T) s"
    by (simp add: resolveSingleParam_apply)
next
  assume "get_wrapper s (ProviderOf M T) \<noteq> None"
  then show "resolveSingleParam n R (Some T) M w i s = resolve_found n R (Some (ProviderOf M T)) M T s"
    by (auto simp: resolveSingleParam_apply)
qed

theorem visibility_look_through_witness:
  "visibility_search 5 shared_container ''AppModule'' SharedService
     = Some (Some (ProviderOf ''SharedModule'' SharedService))
   \<and> (\<exists>k. fulfilled_with
              (fst (case lookupComponentInImports 5 ''AppModule'' SharedService (new_injection shared_container)
                    of (r, s') \<Rightarrow> run k r s'))
          = Some (Some (ProviderOf ''SharedModule'' SharedService)))"
proof -
  let ?s = "new_injection shared_container"
  have c: "container ?s = shared_container" by (simp add: new_injection_def)
  have wf: "exports_provided (container ?s)" unfolding c by code_simp
  have v: "visibility_search 5 (container ?s) ''AppModule'' SharedService
      = Some (Some (ProviderOf ''SharedModule'' SharedService))"
    unfolding c by code_simp
  have ch: "exported_along (container ?s) SharedService ''AppModule'' [''FeatureModule'', ''SharedModule'']"
    unfolding c by code_simp
  have rk: "ranked (container ?s) shared_rank" unfolding c by code_simp
  have n: "shared_rank ''AppModule'' < 5" by code_simp
  from visibility_look_through [OF wf, of 5 "''AppModule''" SharedService
      "[''FeatureModule'', ''SharedModule'']" shared_rank] ch rk n
  obtain hit k where "visibility_search 5 (container ?s) ''AppModule'' SharedService = Some (Some hit)"
    and "\<forall>fuel\<ge>k. (case lookupComponentInImports 5 ''AppModule'' SharedService ?s of (r, s') \<Rightarrow> run fuel r s')
           = (Done (Some hit), ?s)"
    by blast
  with v have "fulfilled_with
        (fst (case lookupComponentInImports 5 ''AppModule'' SharedService ?s of (r, s') \<Rightarrow> run k r s'))
      = Some (Some (ProviderOf ''SharedModule'' SharedService))"
    by simp
  with v c show ?thesis by auto
qed

end
